theory Spec2Isabelle
  imports Main
begin

section \<open>The shared store\<close>

text \<open>
  The cleaner (pkg/async/redis/cleaner.go) and the record store (pkg/storage/store.go)
  talk to Redis through the go-redis client. The client is a library outside this
  repository; its commands are modelled here by what Redis documents for them, on a store
  with one name space per type of value: the sets, the plain keys and the lists.
  A set is kept as the list of its members in the order SMEMBERS enumerates them; a list
  is kept head first, and an absent list is the empty list, as in Redis.
\<close>

record store =
  sets :: "string \<Rightarrow> string list"
  keys :: "string \<Rightarrow> string option"
  lists :: "string \<Rightarrow> string list"

text \<open>
  \<open>clock\<close> counts the store calls made so far. It is what the environment's faults and
  the context's cancellation are read against.
\<close>

record state =
  db :: store
  clock :: nat

text \<open>
  The errors of the two files. \<open>RedisNil\<close> is \<open>redis.Nil\<close>; \<open>StoreFault\<close> is any
  other error of the client (transport, protocol); \<open>Canceled\<close> is \<open>ctx.Err()\<close> of a
  context that is done; the others are the errors built with \<open>fmt.Errorf\<close>, which carry
  the values formatted into their message.
\<close>

datatype error =
    RedisNil
  | StoreFault string
  | Canceled
  | ErrRetrievingWorkers error
  | ErrCheckingHealth string error
  | ErrCleaningUp string string error
  | ErrRemovingWorker string error
  | ErrServiceNotFound string
  | ErrPlanNotFound string string
  | ErrDecode string

text \<open>
  The environment of a run: \<open>fault n\<close> is the error, if any, with which the n-th store
  call fails, and \<open>cancelAt\<close> is the number of store calls after which the context is
  done (never, when it is \<open>None\<close>). A context that is done stays done. A call that fails
  leaves the store as it was.
\<close>

record env =
  fault :: "nat \<Rightarrow> string option"
  cancelAt :: "nat option"

definition tick :: "state \<Rightarrow> state" where
  "tick st = st\<lparr>clock := Suc (clock st)\<rparr>"

definition ctxDone :: "env \<Rightarrow> state \<Rightarrow> bool" where
  "ctxDone ev st = (case cancelAt ev of None \<Rightarrow> False | Some c \<Rightarrow> c \<le> clock st)"

definition setLists :: "(string \<Rightarrow> string list) \<Rightarrow> state \<Rightarrow> state" where
  "setLists l st = st\<lparr>db := (db st)\<lparr>lists := l\<rparr>\<rparr>"

definition setSets :: "(string \<Rightarrow> string list) \<Rightarrow> state \<Rightarrow> state" where
  "setSets m st = st\<lparr>db := (db st)\<lparr>sets := m\<rparr>\<rparr>"

definition setKeys :: "(string \<Rightarrow> string option) \<Rightarrow> state \<Rightarrow> state" where
  "setKeys k st = st\<lparr>db := (db st)\<lparr>keys := k\<rparr>\<rparr>"

text \<open>SMEMBERS: the members of the set; an absent set has none.\<close>

definition SMembers :: "env \<Rightarrow> string \<Rightarrow> state \<Rightarrow> (error + string list) \<times> state" where
  "SMembers ev k st =
     (case fault ev (clock st) of
        Some m \<Rightarrow> (Inl (StoreFault m), tick st)
      | None \<Rightarrow> (Inr (sets (db st) k), tick st))"

text \<open>GET: the value of the key, \<open>redis.Nil\<close> when the key does not exist.\<close>

definition Get :: "env \<Rightarrow> string \<Rightarrow> state \<Rightarrow> (error + string) \<times> state" where
  "Get ev k st =
     (case fault ev (clock st) of
        Some m \<Rightarrow> (Inl (StoreFault m), tick st)
      | None \<Rightarrow>
          (case keys (db st) k of
             None \<Rightarrow> (Inl RedisNil, tick st)
           | Some v \<Rightarrow> (Inr v, tick st)))"

text \<open>
  The list part of RPOPLPUSH on a source that is not empty: the last element of the
  source leaves it and becomes the head of the destination. With the source as its own
  destination this rotates the list.
\<close>

definition moveTask :: "string \<Rightarrow> string \<Rightarrow> (string \<Rightarrow> string list) \<Rightarrow> (string \<Rightarrow> string list)" where
  "moveTask src dst l =
     (let x = last (l src); l1 = l(src := butlast (l src))
      in l1(dst := x # l1 dst))"

text \<open>RPOPLPUSH: one command of the store; \<open>redis.Nil\<close> when the source is empty.\<close>

definition RPopLPush :: "env \<Rightarrow> string \<Rightarrow> string \<Rightarrow> state \<Rightarrow> (error + string) \<times> state" where
  "RPopLPush ev src dst st =
     (case fault ev (clock st) of
        Some m \<Rightarrow> (Inl (StoreFault m), tick st)
      | None \<Rightarrow>
          (if lists (db st) src = [] then (Inl RedisNil, tick st)
           else (Inr (last (lists (db st) src)),
                 tick (setLists (moveTask src dst (lists (db st))) st))))"

text \<open>SREM: removes the member; the reply is the number of members removed.\<close>

definition SRem :: "env \<Rightarrow> string \<Rightarrow> string \<Rightarrow> state \<Rightarrow> (error + nat) \<times> state" where
  "SRem ev k m st =
     (case fault ev (clock st) of
        Some msg \<Rightarrow> (Inl (StoreFault msg), tick st)
      | None \<Rightarrow>
          (Inr (if m \<in> set (sets (db st) k) then 1 else 0),
           tick (setSets ((sets (db st))(k := removeAll m (sets (db st) k))) st)))"

text \<open>DEL: removes the key; the reply is the number of keys removed.\<close>

definition Del :: "env \<Rightarrow> string \<Rightarrow> state \<Rightarrow> (error + nat) \<times> state" where
  "Del ev k st =
     (case fault ev (clock st) of
        Some msg \<Rightarrow> (Inl (StoreFault msg), tick st)
      | None \<Rightarrow>
          (Inr (if keys (db st) k = None then 0 else 1),
           tick (setKeys ((keys (db st))(k := None)) st)))"

section \<open>The cleaner\<close>

text \<open>
  The three name derivations \<open>getHeartbeatKey\<close>, \<open>getActiveTaskQueueName\<close> and
  \<open>getWatchedTaskQueueName\<close> are called by the cleaner and declared in another file
  of the package; they are taken as a parameter.
\<close>

record naming =
  getHeartbeatKey :: "string \<Rightarrow> string"
  getActiveTaskQueueName :: "string \<Rightarrow> string"
  getWatchedTaskQueueName :: "string \<Rightarrow> string"

text \<open>What one turn of a loop does next: go round again, or return from the function.\<close>

datatype flow = Again | Return "error option"

text \<open>
  One turn of the loop of \<open>defaultCleanWorkerQueue\<close> (cleaner.go, lines 97 to 113):
  the context is looked at first, then one RPOPLPUSH is issued.
\<close>

definition drainTurn :: "env \<Rightarrow> string \<Rightarrow> string \<Rightarrow> string \<Rightarrow> state \<Rightarrow> flow \<times> state" where
  "drainTurn ev workerID sourceQueueName destinationQueueName st =
     (if ctxDone ev st then (Return (Some Canceled), st)
      else
        (case RPopLPush ev sourceQueueName destinationQueueName st of
           (Inl e, st') \<Rightarrow>
             (if e = RedisNil then (Return None, st')
              else (Return (Some (ErrCleaningUp workerID sourceQueueName e)), st'))
         | (Inr _, st') \<Rightarrow> (Again, st')))"

text \<open>
  \<open>defaultCleanWorkerQueue\<close>: the loop \<open>for { ... }\<close> has no bound of its own, so the
  function is partial: \<open>None\<close> is a call that never returns.
\<close>

partial_function (option) defaultCleanWorkerQueue ::
    "env \<Rightarrow> string \<Rightarrow> string \<Rightarrow> string \<Rightarrow> state \<Rightarrow> (error option \<times> state) option" where
  "defaultCleanWorkerQueue ev workerID sourceQueueName destinationQueueName st =
     (case drainTurn ev workerID sourceQueueName destinationQueueName st of
        (Return r, st') \<Rightarrow> Some (r, st')
      | (Again, st') \<Rightarrow>
          defaultCleanWorkerQueue ev workerID sourceQueueName destinationQueueName st')"

text \<open>
  Modelled from the spec: the engine's fields \<open>cleanActiveTaskQueue\<close> and
  \<open>cleanWatchedTaskQueue\<close>, of type \<open>cleanWorkerQueueFn\<close>, are set where the
  engine is built, in another file of the package. The spec (4.2, step 3, and 4.3) has both
  be the queue drain, which is \<open>defaultCleanWorkerQueue\<close>.
\<close>

definition cleanActiveTaskQueue ::
    "env \<Rightarrow> string \<Rightarrow> string \<Rightarrow> string \<Rightarrow> state \<Rightarrow> (error option \<times> state) option" where
  "cleanActiveTaskQueue = defaultCleanWorkerQueue"

definition cleanWatchedTaskQueue ::
    "env \<Rightarrow> string \<Rightarrow> string \<Rightarrow> string \<Rightarrow> state \<Rightarrow> (error option \<times> state) option" where
  "cleanWatchedTaskQueue = defaultCleanWorkerQueue"

text \<open>The \<open>select\<close> on \<open>ctx.Done()\<close> with a \<open>default\<close> branch.\<close>

definition checkpoint :: "env \<Rightarrow> state \<Rightarrow> flow" where
  "checkpoint ev st = (if ctxDone ev st then Return (Some Canceled) else Again)"

text \<open>
  One turn of the loop over the worker IDs in \<open>defaultClean\<close> (cleaner.go, lines 39
  to 85). \<open>None\<close> is a turn that never ends, because a drain never returns.
\<close>

definition cleanTurn ::
    "env \<Rightarrow> naming \<Rightarrow> string \<Rightarrow> string \<Rightarrow> string \<Rightarrow> string \<Rightarrow> state \<Rightarrow> (flow \<times> state) option" where
  "cleanTurn ev nm workerSetName pendingTaskQueueName deferredTaskQueueName workerID st =
     (case Get ev (getHeartbeatKey nm workerID) st of
        (Inr _, st1) \<Rightarrow> Some (checkpoint ev st1, st1)
      | (Inl e, st1) \<Rightarrow>
          (if e \<noteq> RedisNil then Some (Return (Some (ErrCheckingHealth workerID e)), st1)
           else
             (case cleanActiveTaskQueue ev workerID
                     (getActiveTaskQueueName nm workerID) pendingTaskQueueName st1 of
                None \<Rightarrow> None
              | Some (Some e1, st2) \<Rightarrow> Some (Return (Some e1), st2)
              | Some (None, st2) \<Rightarrow>
                  (case cleanWatchedTaskQueue ev workerID
                          (getWatchedTaskQueueName nm workerID) deferredTaskQueueName st2 of
                     None \<Rightarrow> None
                   | Some (Some e2, st3) \<Rightarrow> Some (Return (Some e2), st3)
                   | Some (None, st3) \<Rightarrow>
                       (case SRem ev workerSetName workerID st3 of
                          (Inl e3, st4) \<Rightarrow>
                            (if e3 \<noteq> RedisNil
                             then Some (Return (Some (ErrRemovingWorker workerID e3)), st4)
                             else Some (checkpoint ev st4, st4))
                        | (Inr _, st4) \<Rightarrow> Some (checkpoint ev st4, st4))))))"

text \<open>The loop \<open>for _, workerID := range workerIDs\<close>, and the \<open>return nil\<close> after it.\<close>

fun cleanWorkers ::
    "env \<Rightarrow> naming \<Rightarrow> string \<Rightarrow> string \<Rightarrow> string \<Rightarrow> string list \<Rightarrow> state
      \<Rightarrow> (error option \<times> state) option" where
  "cleanWorkers ev nm ws pq dq [] st = Some (None, st)"
| "cleanWorkers ev nm ws pq dq (workerID # workerIDs) st =
     (case cleanTurn ev nm ws pq dq workerID st of
        None \<Rightarrow> None
      | Some (Return r, st') \<Rightarrow> Some (r, st')
      | Some (Again, st') \<Rightarrow> cleanWorkers ev nm ws pq dq workerIDs st')"

text \<open>\<open>defaultClean\<close> (cleaner.go, lines 25 to 88).\<close>

definition defaultClean ::
    "env \<Rightarrow> naming \<Rightarrow> string \<Rightarrow> string \<Rightarrow> string \<Rightarrow> state \<Rightarrow> (error option \<times> state) option" where
  "defaultClean ev nm workerSetName pendingTaskQueueName deferredTaskQueueName st =
     (case SMembers ev workerSetName st of
        (Inl e, st1) \<Rightarrow>
          (if e = RedisNil then Some (None, st1)
           else Some (Some (ErrRetrievingWorkers e), st1))
      | (Inr workerIDs, st1) \<Rightarrow>
          cleanWorkers ev nm workerSetName pendingTaskQueueName deferredTaskQueueName
            workerIDs st1)"

section \<open>The record store\<close>

text \<open>
  The fields of \<open>service.Instance\<close> and \<open>service.Binding\<close> that store.go reads and
  writes. The types are declared in the package \<open>service\<close>; a
  service, a plan and a service manager are values of type parameters.
\<close>

record ('svc, 'plan) Instance =
  InstanceID :: string
  ServiceID :: string
  PlanID :: string
  Service :: "'svc option"
  Plan :: "'plan option"

record Binding =
  BindingID :: string
  BindingServiceID :: string

text \<open>The zero values \<open>service.Instance{}\<close> and \<open>service.Binding{}\<close>.\<close>

definition emptyInstance :: "('svc, 'plan) Instance" where
  "emptyInstance =
     \<lparr>InstanceID = [], ServiceID = [], PlanID = [], Service = None, Plan = None\<rparr>"

definition emptyBinding :: Binding where
  "emptyBinding = \<lparr>BindingID = [], BindingServiceID = []\<rparr>"

text \<open>
  What store.go calls in the package \<open>service\<close>, taken as a parameter: the catalog's
  \<open>GetService\<close>, a service's \<open>GetPlan\<close> and \<open>GetServiceManager\<close>, and the two
  decoders, which return a record together with an error. A decoder is given the empty
  parameter and detail values of a service manager, or \<open>None\<close> where store.go passes
  \<open>nil\<close> for each of them. The codec of the store is part of the decoders and encoders.
\<close>

record ('svc, 'plan, 'sm) service_pkg =
  GetService :: "string \<Rightarrow> 'svc option"
  GetPlan :: "'svc \<Rightarrow> string \<Rightarrow> 'plan option"
  GetServiceManager :: "'svc \<Rightarrow> 'sm"
  NewInstanceFromJSON :: "string \<Rightarrow> 'sm option \<Rightarrow> ('svc, 'plan) Instance \<times> error option"
  NewBindingFromJSON :: "string \<Rightarrow> 'sm option \<Rightarrow> Binding \<times> error option"

definition getInstanceKey :: "string \<Rightarrow> string" where
  "getInstanceKey instanceID = ''instances:'' @ instanceID"

definition getBindingKey :: "string \<Rightarrow> string" where
  "getBindingKey bindingID = ''bindings:'' @ bindingID"

text \<open>
  \<open>GetInstance\<close> (store.go, lines 63 to 109). \<open>strCmd.Bytes()\<close> gives the reply with
  the error of the command, which is nil where it is called, so its error branch is not
  taken.
\<close>

definition GetInstance ::
    "env \<Rightarrow> ('svc, 'plan, 'sm) service_pkg \<Rightarrow> string \<Rightarrow> state
      \<Rightarrow> (('svc, 'plan) Instance \<times> bool \<times> error option) \<times> state" where
  "GetInstance ev sp instanceID st =
     (case Get ev (getInstanceKey instanceID) st of
        (Inl e, st') \<Rightarrow>
          (if e = RedisNil then ((emptyInstance, False, None), st')
           else ((emptyInstance, False, Some e), st'))
      | (Inr bytes, st') \<Rightarrow>
          (case NewInstanceFromJSON sp bytes None of
             (inst, Some e) \<Rightarrow> ((inst, False, Some e), st')
           | (inst, None) \<Rightarrow>
               (case GetService sp (ServiceID inst) of
                  None \<Rightarrow> ((inst, False, Some (ErrServiceNotFound (ServiceID inst))), st')
                | Some svc \<Rightarrow>
                    (case GetPlan sp svc (PlanID inst) of
                       None \<Rightarrow>
                         ((inst, False,
                           Some (ErrPlanNotFound (PlanID inst) (ServiceID inst))), st')
                     | Some plan \<Rightarrow>
                         (case NewInstanceFromJSON sp bytes
                                 (Some (GetServiceManager sp svc)) of
                            (inst2, err) \<Rightarrow>
                              ((inst2\<lparr>Service := Some svc, Plan := Some plan\<rparr>,
                                err = None, err), st'))))))"

text \<open>\<open>DeleteInstance\<close> (store.go, lines 111 to 123).\<close>

definition DeleteInstance :: "env \<Rightarrow> string \<Rightarrow> state \<Rightarrow> (bool \<times> error option) \<times> state" where
  "DeleteInstance ev instanceID st =
     (case Get ev (getInstanceKey instanceID) st of
        (Inl e, st') \<Rightarrow>
          (if e = RedisNil then ((False, None), st') else ((False, Some e), st'))
      | (Inr _, st') \<Rightarrow>
          (case Del ev (getInstanceKey instanceID) st' of
             (Inl e, st'') \<Rightarrow> ((False, Some e), st'')
           | (Inr _, st'') \<Rightarrow> ((True, None), st'')))"

text \<open>\<open>GetBinding\<close> (store.go, lines 138 to 171).\<close>

definition GetBinding ::
    "env \<Rightarrow> ('svc, 'plan, 'sm) service_pkg \<Rightarrow> string \<Rightarrow> state
      \<Rightarrow> (Binding \<times> bool \<times> error option) \<times> state" where
  "GetBinding ev sp bindingID st =
     (case Get ev (getBindingKey bindingID) st of
        (Inl e, st') \<Rightarrow>
          (if e = RedisNil then ((emptyBinding, False, None), st')
           else ((emptyBinding, False, Some e), st'))
      | (Inr bytes, st') \<Rightarrow>
          (case NewBindingFromJSON sp bytes None of
             (b, Some e) \<Rightarrow> ((b, False, Some e), st')
           | (b, None) \<Rightarrow>
               (case GetService sp (BindingServiceID b) of
                  None \<Rightarrow> ((b, False, Some (ErrServiceNotFound (BindingServiceID b))), st')
                | Some svc \<Rightarrow>
                    (case NewBindingFromJSON sp bytes (Some (GetServiceManager sp svc)) of
                       (b2, err) \<Rightarrow> ((b2, err = None, err), st')))))"

text \<open>\<open>DeleteBinding\<close> (store.go, lines 173 to 185).\<close>

definition DeleteBinding :: "env \<Rightarrow> string \<Rightarrow> state \<Rightarrow> (bool \<times> error option) \<times> state" where
  "DeleteBinding ev bindingID st =
     (case Get ev (getBindingKey bindingID) st of
        (Inl e, st') \<Rightarrow>
          (if e = RedisNil then ((False, None), st') else ((False, Some e), st'))
      | (Inr _, st') \<Rightarrow>
          (case Del ev (getBindingKey bindingID) st' of
             (Inl e, st'') \<Rightarrow> ((False, Some e), st'')
           | (Inr _, st'') \<Rightarrow> ((True, None), st'')))"

section \<open>Notions used to state the properties\<close>

text \<open>An environment in which no store call fails and the context is never done.\<close>

definition quiet :: "env \<Rightarrow> bool" where
  "quiet ev = ((\<forall>n. fault ev n = None) \<and> cancelAt ev = None)"

text \<open>
  The store after the last \<open>length (lists d src) - j\<close> elements of the source have
  moved, one at a time, to the head of the destination: the source keeps its first \<open>j\<close>
  elements.
\<close>

definition drained :: "string \<Rightarrow> string \<Rightarrow> nat \<Rightarrow> store \<Rightarrow> store" where
  "drained src dst j d = d\<lparr>lists := (lists d)(src := take j (lists d src),
                                 dst := drop j (lists d src) @ lists d dst)\<rparr>"

text \<open>
  The naming, the environment and the store of the scenario in section 8 of the spec:
  worker \<open>w1\<close> has no heartbeat key, the active queue \<open>[t1, t2]\<close> and the watched queue
  \<open>[t3]\<close>; worker \<open>w2\<close> has a heartbeat key; the worker set is \<open>{w1, w2}\<close>.
\<close>

definition quietEnv :: env where
  "quietEnv = \<lparr>fault = (\<lambda>n. None), cancelAt = None\<rparr>"

definition exNaming :: naming where
  "exNaming = \<lparr>getHeartbeatKey = (\<lambda>w. ''h:'' @ w),
               getActiveTaskQueueName = (\<lambda>w. ''a:'' @ w),
               getWatchedTaskQueueName = (\<lambda>w. ''w:'' @ w)\<rparr>"

definition exState :: state where
  "exState =
     \<lparr>db = \<lparr>sets = (\<lambda>k. [])(''ws'' := [''w1'', ''w2'']),
             keys = (\<lambda>k. None)(''h:w2'' := Some ''up''),
             lists = (\<lambda>k. [])(''a:w1'' := [''t1'', ''t2''], ''w:w1'' := [''t3''],
                                ''pq'' := [''t0''], ''a:w2'' := [''t4''])\<rparr>,
      clock = 0\<rparr>"

text \<open>A context that is done from the second store call on.\<close>

definition cancelEnv :: env where
  "cancelEnv = \<lparr>fault = (\<lambda>n. None), cancelAt = Some 1\<rparr>"

text \<open>
  A catalog and a store of records for the record store: the service \<open>s1\<close> with the
  plan \<open>p1\<close>; the stored bytes of an instance are its service ID (two characters)
  followed by its plan ID, those of a binding are its service ID.
\<close>

definition exPkg :: "(string, string, unit) service_pkg" where
  "exPkg =
     \<lparr>GetService = (\<lambda>sid. if sid = ''s1'' then Some ''s1'' else None),
      GetPlan = (\<lambda>svc pid. if pid = ''p1'' then Some ''p1'' else None),
      GetServiceManager = (\<lambda>svc. ()),
      NewInstanceFromJSON = (\<lambda>bytes sm.
         (\<lparr>InstanceID = ''i'', ServiceID = take 2 bytes, PlanID = drop 2 bytes,
           Service = None, Plan = None\<rparr>, None)),
      NewBindingFromJSON = (\<lambda>bytes sm.
         (\<lparr>BindingID = ''b'', BindingServiceID = bytes\<rparr>, None))\<rparr>"

definition exRecords :: state where
  "exRecords =
     \<lparr>db = \<lparr>sets = (\<lambda>k. []),
             keys = (\<lambda>k. None)(''instances:i1'' := Some ''s9p1'',
                                  ''instances:i2'' := Some ''s1p9'',
                                  ''bindings:b1'' := Some ''s9''),
             lists = (\<lambda>k. [])\<rparr>,
      clock = 0\<rparr>"

text \<open>The store after SREM of \<open>v\<close> from the set \<open>ws\<close>, when \<open>rm\<close> holds.\<close>

definition removed :: "string \<Rightarrow> string \<Rightarrow> bool \<Rightarrow> store \<Rightarrow> store" where
  "removed ws v rm d = (if rm then d\<lparr>sets := (sets d)(ws := removeAll v (sets d ws))\<rparr> else d)"

text \<open>
  What one turn of the cleaner's loop does to the store: the active queue \<open>a\<close> is drained
  into \<open>pq\<close> down to its first \<open>j1\<close> elements, then the watched queue \<open>b\<close> into
  \<open>dq\<close> down to its first \<open>j2\<close> elements, then the worker is removed or not.
\<close>

definition turnEffect ::
    "string \<Rightarrow> string \<Rightarrow> string \<Rightarrow> string \<Rightarrow> string \<Rightarrow> string \<Rightarrow> nat \<Rightarrow> nat \<Rightarrow> bool
      \<Rightarrow> store \<Rightarrow> store" where
  "turnEffect a pq b dq ws v j1 j2 rm d =
     removed ws v rm (drained b dq j2 (drained a pq j1 d))"

text \<open>
  The naming keeps the roles apart on the workers \<open>xs\<close>: no per-worker queue is the
  pending or the deferred queue, no active queue is a watched queue, and two workers do not
  share a queue (section 6 of the spec: one name per role and worker).
\<close>

definition rolesDistinct :: "naming \<Rightarrow> string \<Rightarrow> string \<Rightarrow> string list \<Rightarrow> bool" where
  "rolesDistinct nm pq dq xs =
     (\<forall>v \<in> set xs.
        getActiveTaskQueueName nm v \<notin> {pq, dq}
      \<and> getWatchedTaskQueueName nm v \<notin> {pq, dq}
      \<and> (\<forall>w \<in> set xs.
            getActiveTaskQueueName nm v \<noteq> getWatchedTaskQueueName nm w
          \<and> (v \<noteq> w \<longrightarrow>
                getActiveTaskQueueName nm v \<noteq> getActiveTaskQueueName nm w
              \<and> getWatchedTaskQueueName nm v \<noteq> getWatchedTaskQueueName nm w)))"

text \<open>
  What every turn of the cleaner's loop keeps, seen from worker \<open>w\<close>: the heartbeat
  keys; the worker set only shrinks; a task of \<open>w\<close>'s active queue is still there or in
  the pending queue, and likewise for its watched queue and the deferred queue; and a queue
  of \<open>w\<close> that is empty stays empty.
\<close>

definition keeps :: "naming \<Rightarrow> string \<Rightarrow> string \<Rightarrow> string \<Rightarrow> string \<Rightarrow> store \<Rightarrow> store \<Rightarrow> bool" where
  "keeps nm pq dq ws w d d' =
     (keys d' = keys d
    \<and> set (sets d' ws) \<subseteq> set (sets d ws)
    \<and> set (lists d (getActiveTaskQueueName nm w)) \<union> set (lists d pq)
         \<subseteq> set (lists d' (getActiveTaskQueueName nm w)) \<union> set (lists d' pq)
    \<and> set (lists d (getWatchedTaskQueueName nm w)) \<union> set (lists d dq)
         \<subseteq> set (lists d' (getWatchedTaskQueueName nm w)) \<union> set (lists d' dq)
    \<and> (lists d (getActiveTaskQueueName nm w) = [] \<longrightarrow>
           lists d' (getActiveTaskQueueName nm w) = [])
    \<and> (lists d (getWatchedTaskQueueName nm w) = [] \<longrightarrow>
           lists d' (getWatchedTaskQueueName nm w) = []))"

text \<open>An environment whose n-th store call fails, and no other.\<close>

definition faultyEnv :: "nat \<Rightarrow> env" where
  "faultyEnv n = \<lparr>fault = (\<lambda>k. if k = n then Some ''down'' else None), cancelAt = None\<rparr>"

text \<open>A context that is done before the first store call.\<close>

definition doneEnv :: env where
  "doneEnv = \<lparr>fault = (\<lambda>n. None), cancelAt = Some 0\<rparr>"

section \<open>The queue drain\<close>

lemma db_tick [simp]: "db (tick st) = db st" by (simp add: tick_def)
lemma clock_tick [simp]: "clock (tick st) = Suc (clock st)" by (simp add: tick_def)
lemma db_setLists [simp]: "db (setLists l st) = (db st)\<lparr>lists := l\<rparr>" by (simp add: setLists_def)
lemma clock_setLists [simp]: "clock (setLists l st) = clock st" by (simp add: setLists_def)
lemma db_setSets [simp]: "db (setSets l st) = (db st)\<lparr>sets := l\<rparr>" by (simp add: setSets_def)
lemma clock_setSets [simp]: "clock (setSets l st) = clock st" by (simp add: setSets_def)
lemma db_setKeys [simp]: "db (setKeys l st) = (db st)\<lparr>keys := l\<rparr>" by (simp add: setKeys_def)
lemma clock_setKeys [simp]: "clock (setKeys l st) = clock st" by (simp add: setKeys_def)

lemma moveTask_distinct:
  assumes "src \<noteq> dst" "l src \<noteq> []"
  shows "moveTask src dst l = l(src := butlast (l src), dst := last (l src) # l dst)"
  using assms by (simp add: moveTask_def Let_def)

lemma drainTurn_cases:
  "drainTurn ev w src dst st =
     (if ctxDone ev st then (Return (Some Canceled), st)
      else case fault ev (clock st) of
        Some m \<Rightarrow> (Return (Some (ErrCleaningUp w src (StoreFault m))), tick st)
      | None \<Rightarrow> if lists (db st) src = [] then (Return None, tick st)
                else (Again, tick (setLists (moveTask src dst (lists (db st))) st)))"
  by (simp add: drainTurn_def RPopLPush_def split: option.splits)


lemma drained_all [simp]: "length (lists d src) \<le> j \<Longrightarrow> drained src dst j d = d"
  by (simp add: drained_def)

lemma drained_step:
  assumes "src \<noteq> dst" "lists d src \<noteq> []" "j < length (lists d src)"
  shows "drained src dst j (d\<lparr>lists := moveTask src dst (lists d)\<rparr>) = drained src dst j d"
proof -
  let ?S = "lists d src"
  have a: "take j (butlast ?S) = take j ?S" using assms(3) by (simp add: take_butlast)
  have "drop j ?S \<noteq> []" using assms(3) by simp
  then have "butlast (drop j ?S) @ [last (drop j ?S)] = drop j ?S"
    by (rule append_butlast_last_id)
  moreover have "last (drop j ?S) = last ?S" using assms(3) by simp
  ultimately have "drop j (butlast ?S) @ [last ?S] = drop j ?S"
    by (simp add: drop_butlast)
  then have "(drop j (butlast ?S) @ [last ?S]) @ lists d dst = drop j ?S @ lists d dst"
    by (rule arg_cong)
  then have b: "drop j (butlast ?S) @ last ?S # lists d dst = drop j ?S @ lists d dst"
    by simp
  have "drained src dst j (d\<lparr>lists := moveTask src dst (lists d)\<rparr>) =
        d\<lparr>lists := (lists d)(src := take j (butlast ?S),
                               dst := drop j (butlast ?S) @ last ?S # lists d dst)\<rparr>"
    using assms(1,2) by (simp add: drained_def moveTask_distinct)
  also have "\<dots> = drained src dst j d"
    unfolding drained_def by (simp only: a b)
  finally show ?thesis .
qed

lemma drain_total:
  assumes "src \<noteq> dst"
  shows "\<exists>r st' j. defaultCleanWorkerQueue ev w src dst st = Some (r, st')
           \<and> j \<le> length (lists (db st) src)
           \<and> db st' = drained src dst j (db st)
           \<and> (r = None \<longrightarrow> j = 0) \<and> clock st \<le> clock st'"
proof (induction "length (lists (db st) src)" arbitrary: st)
  case 0
  then show ?case
    by (subst defaultCleanWorkerQueue.simps)
       (auto simp add: drainTurn_cases split: option.splits)
next
  case (Suc n)
  let ?S = "lists (db st) src"
  have ne: "?S \<noteq> []" using Suc.hyps(2) by auto
  show ?case
  proof (cases "ctxDone ev st \<or> fault ev (clock st) \<noteq> None")
    case True
    then show ?thesis
      by (subst defaultCleanWorkerQueue.simps)
         (auto simp add: drainTurn_cases split: option.splits intro!: exI[of _ "length ?S"])
  next
    case False
    let ?st1 = "tick (setLists (moveTask src dst (lists (db st))) st)"
    have turn: "drainTurn ev w src dst st = (Again, ?st1)"
      using False ne by (simp add: drainTurn_cases)
    have len: "n = length (lists (db ?st1) src)"
      using Suc.hyps(2) assms ne by (simp add: moveTask_distinct)
    from Suc.hyps(1)[OF len] obtain r st' j where
      run: "defaultCleanWorkerQueue ev w src dst ?st1 = Some (r, st')"
      and j: "j \<le> length (lists (db ?st1) src)"
      and d: "db st' = drained src dst j (db ?st1)"
      and r: "r = None \<longrightarrow> j = 0" and c: "clock ?st1 \<le> clock st'"
      by blast
    have jlt: "j < length ?S" using j len Suc.hyps(2) by simp
    have "db st' = drained src dst j (db st)"
      using d drained_step[OF assms ne jlt] by simp
    moreover have "defaultCleanWorkerQueue ev w src dst st = Some (r, st')"
      by (subst defaultCleanWorkerQueue.simps) (simp add: turn run)
    ultimately have "defaultCleanWorkerQueue ev w src dst st = Some (r, st')
           \<and> j \<le> length (lists (db st) src)
           \<and> db st' = drained src dst j (db st)
           \<and> (r = None \<longrightarrow> j = 0) \<and> clock st \<le> clock st'"
      using jlt r c by simp
    then show ?thesis by blast
  qed
qed

lemma quiet_ctxDone [simp]: "quiet ev \<Longrightarrow> \<not> ctxDone ev st"
  by (simp add: quiet_def ctxDone_def)

lemma quiet_fault [simp]: "quiet ev \<Longrightarrow> fault ev n = None"
  by (simp add: quiet_def)

lemma drain_moves_aux:
  assumes "defaultCleanWorkerQueue ev w src dst st = Some y"
  shows "(\<exists>k. db (snd y) = (db st)\<lparr>lists := (moveTask src dst ^^ k) (lists (db st))\<rparr>)
      \<and> clock st \<le> clock (snd y)"
  using assms
proof (induction rule: defaultCleanWorkerQueue.raw_induct[rotated 1, consumes 1, case_names 1])
  case (1 f ev w src dst st y)
  show ?case
  proof (cases "drainTurn ev w src dst st")
    case (Pair fl st1)
    show ?thesis
    proof (cases fl)
      case Again
      with Pair 1(2) have run: "f ev w src dst st1 = Some y" by simp
      from Pair Again have st1: "st1 = tick (setLists (moveTask src dst (lists (db st))) st)"
        by (auto simp add: drainTurn_cases split: if_splits option.splits)
      from 1(1)[OF run] obtain k where
        k: "db (snd y) = (db st1)\<lparr>lists := (moveTask src dst ^^ k) (lists (db st1))\<rparr>"
        and c: "clock st1 \<le> clock (snd y)" by blast
      have "db (snd y) = (db st)\<lparr>lists := (moveTask src dst ^^ Suc k) (lists (db st))\<rparr>"
        using k st1 by (simp add: funpow_swap1)
      moreover have "clock st \<le> clock (snd y)" using c st1 by simp
      ultimately show ?thesis by blast
    next
      case (Return r)
      with Pair 1(2) have y: "y = (r, st1)" by simp
      from Pair Return have "db st1 = db st \<and> clock st \<le> clock st1"
        by (auto simp add: drainTurn_cases split: if_splits option.splits)
      then have "db (snd y) = (db st)\<lparr>lists := (moveTask src dst ^^ 0) (lists (db st))\<rparr>
          \<and> clock st \<le> clock (snd y)" using y by simp
      then show ?thesis by blast
    qed
  qed
qed

lemma drain_moves:
  assumes "defaultCleanWorkerQueue ev w src dst st = Some (r, st')"
  shows "(\<exists>k. db st' = (db st)\<lparr>lists := (moveTask src dst ^^ k) (lists (db st))\<rparr>)
         \<and> clock st \<le> clock st'"
  using drain_moves_aux[OF assms] by simp

lemma drain_rotates_aux:
  assumes "defaultCleanWorkerQueue ev w src dst st = Some y"
  shows "\<not> (quiet ev \<and> src = dst \<and> lists (db st) src \<noteq> [])"
  using assms
proof (induction rule: defaultCleanWorkerQueue.raw_induct[rotated 1, consumes 1, case_names 1])
  case (1 f ev w src dst st y)
  show ?case
  proof
    assume a: "quiet ev \<and> src = dst \<and> lists (db st) src \<noteq> []"
    then have q: "quiet ev" and e: "src = dst" and ne: "lists (db st) src \<noteq> []"
      by blast+
    let ?st1 = "tick (setLists (moveTask src dst (lists (db st))) st)"
    from q ne have "drainTurn ev w src dst st = (Again, ?st1)"
      by (simp add: drainTurn_cases)
    with 1(2) have "f ev w src dst ?st1 = Some y" by simp
    from 1(1)[OF this] have "\<not> (quiet ev \<and> src = dst \<and> lists (db ?st1) src \<noteq> [])" .
    moreover have "lists (db ?st1) src \<noteq> []"
      unfolding e by (simp add: moveTask_def Let_def)
    ultimately show False using q e by simp
  qed
qed

lemma drain_rotates_forever:
  assumes "quiet ev" "lists (db st) q \<noteq> []"
  shows "defaultCleanWorkerQueue ev w q q st = None"
  using assms drain_rotates_aux[of ev w q q st]
  by (cases "defaultCleanWorkerQueue ev w q q st") auto

lemma drain_quiet:
  assumes "src \<noteq> dst" "quiet ev"
  shows "\<exists>st'. defaultCleanWorkerQueue ev w src dst st = Some (None, st')
           \<and> db st' = drained src dst 0 (db st)
           \<and> clock st' = clock st + length (lists (db st) src) + 1"
proof (induction "length (lists (db st) src)" arbitrary: st)
  case 0
  with assms(2) show ?case
    by (subst defaultCleanWorkerQueue.simps) (simp add: drainTurn_cases)
next
  case (Suc n)
  let ?S = "lists (db st) src"
  have ne: "?S \<noteq> []" using Suc.hyps(2) by auto
  let ?st1 = "tick (setLists (moveTask src dst (lists (db st))) st)"
  have turn: "drainTurn ev w src dst st = (Again, ?st1)"
    using assms(2) ne by (simp add: drainTurn_cases)
  have len: "n = length (lists (db ?st1) src)"
    using Suc.hyps(2) assms ne by (simp add: moveTask_distinct)
  from Suc.hyps(1)[OF len] obtain st' where
    run: "defaultCleanWorkerQueue ev w src dst ?st1 = Some (None, st')"
    and d: "db st' = drained src dst 0 (db ?st1)"
    and c: "clock st' = clock ?st1 + length (lists (db ?st1) src) + 1"
    by blast
  have "0 < length ?S" using ne by simp
  from drained_step[OF assms(1) ne this] d have "db st' = drained src dst 0 (db st)" by simp
  moreover have "defaultCleanWorkerQueue ev w src dst st = Some (None, st')"
    by (subst defaultCleanWorkerQueue.simps) (simp add: turn run)
  moreover have "clock st' = clock st + length ?S + 1"
    using c len Suc.hyps(2) by simp
  ultimately show ?case by blast
qed

lemma drain_quiet_eq:
  assumes "src \<noteq> dst" "quiet ev"
  shows "defaultCleanWorkerQueue ev w src dst st =
           Some (None, \<lparr>db = drained src dst 0 (db st),
                        clock = clock st + length (lists (db st) src) + 1\<rparr>)"
proof -
  from drain_quiet[OF assms, of w st] obtain st' where
    r: "defaultCleanWorkerQueue ev w src dst st = Some (None, st')"
    and d: "db st' = drained src dst 0 (db st)"
    and c: "clock st' = clock st + length (lists (db st) src) + 1" by blast
  have "st' = \<lparr>db = db st', clock = clock st'\<rparr>" by simp
  with r d c show ?thesis by simp
qed

lemma moves_drained:
  assumes "src \<noteq> dst"
  shows "(moveTask src dst ^^ length (l src)) l = l(src := [], dst := l src @ l dst)"
proof (induction "length (l src)" arbitrary: l)
  case 0
  then show ?case by (auto simp add: fun_eq_iff)
next
  case (Suc n)
  then have ne: "l src \<noteq> []" by auto
  let ?l1 = "moveTask src dst l"
  have l1: "?l1 = l(src := butlast (l src), dst := last (l src) # l dst)"
    using assms ne by (rule moveTask_distinct)
  have len: "n = length (?l1 src)" using Suc.hyps(2) assms by (simp add: l1)
  have "(moveTask src dst ^^ length (l src)) l = (moveTask src dst ^^ n) ?l1"
    using Suc.hyps(2)[symmetric] by (simp add: funpow_swap1)
  also have "\<dots> = ?l1(src := [], dst := ?l1 src @ ?l1 dst)"
    using Suc.hyps(1)[of ?l1, OF len] len by simp
  also have "\<dots> = l(src := [], dst := (butlast (l src) @ [last (l src)]) @ l dst)"
    using assms by (simp add: l1)
  also have "\<dots> = l(src := [], dst := l src @ l dst)"
    by (simp only: append_butlast_last_id[OF ne])
  finally show ?case .
qed

lemma drain_canceled_aux:
  assumes "defaultCleanWorkerQueue ev w src dst st = Some y"
  shows "fst y = Some Canceled \<longrightarrow> ctxDone ev (snd y)"
  using assms
proof (induction rule: defaultCleanWorkerQueue.raw_induct[rotated 1, consumes 1, case_names 1])
  case (1 f ev w src dst st y)
  show ?case
  proof (cases "drainTurn ev w src dst st")
    case (Pair fl st1)
    show ?thesis
    proof (cases fl)
      case Again
      with Pair 1(2) have "f ev w src dst st1 = Some y" by simp
      then show ?thesis by (rule 1(1))
    next
      case (Return r)
      with Pair 1(2) have y: "y = (r, st1)" by simp
      from Pair Return show ?thesis unfolding y
        by (auto simp add: drainTurn_cases split: if_splits option.splits)
    qed
  qed
qed

lemma drain_unfold_done:
  assumes "ctxDone ev st"
  shows "defaultCleanWorkerQueue ev w src dst st = Some (Some Canceled, st)"
  using assms by (subst defaultCleanWorkerQueue.simps) (simp add: drainTurn_def)

lemma drain_unfold_call:
  assumes "\<not> ctxDone ev st"
  shows "defaultCleanWorkerQueue ev w src dst st =
     (case RPopLPush ev src dst st of
        (Inl e, st') \<Rightarrow>
          Some (if e = RedisNil then None else Some (ErrCleaningUp w src e), st')
      | (Inr x, st') \<Rightarrow> defaultCleanWorkerQueue ev w src dst st')"
  using assms
  by (subst defaultCleanWorkerQueue.simps)
     (simp add: drainTurn_def split: prod.splits sum.splits)

lemma drain_canceled_count_aux:
  assumes "defaultCleanWorkerQueue ev w src dst st = Some y"
  shows "fst y = Some Canceled \<longrightarrow>
     (\<exists>k. db (snd y) = (db st)\<lparr>lists := (moveTask src dst ^^ k) (lists (db st))\<rparr>
        \<and> clock (snd y) = clock st + k \<and> ctxDone ev (snd y))"
  using assms
proof (induction rule: defaultCleanWorkerQueue.raw_induct[rotated 1, consumes 1, case_names 1])
  case (1 f ev w src dst st y)
  show ?case
  proof (cases "drainTurn ev w src dst st")
    case (Pair fl st1)
    show ?thesis
    proof (cases fl)
      case Again
      with Pair 1(2) have run: "f ev w src dst st1 = Some y" by simp
      from Pair Again have st1: "st1 = tick (setLists (moveTask src dst (lists (db st))) st)"
        by (auto simp add: drainTurn_cases split: if_splits option.splits)
      show ?thesis
      proof
        assume c: "fst y = Some Canceled"
        from 1(1)[OF run] c obtain k where
          k: "db (snd y) = (db st1)\<lparr>lists := (moveTask src dst ^^ k) (lists (db st1))\<rparr>"
          and cl: "clock (snd y) = clock st1 + k" and dn: "ctxDone ev (snd y)" by blast
        have "db (snd y) = (db st)\<lparr>lists := (moveTask src dst ^^ Suc k) (lists (db st))\<rparr>"
          using k st1 by (simp add: funpow_swap1)
        moreover have "clock (snd y) = clock st + Suc k" using cl st1 by simp
        ultimately show "\<exists>k. db (snd y) = (db st)\<lparr>lists := (moveTask src dst ^^ k) (lists (db st))\<rparr>
          \<and> clock (snd y) = clock st + k \<and> ctxDone ev (snd y)" using dn by blast
      qed
    next
      case (Return r)
      with Pair 1(2) have y: "y = (r, st1)" by simp
      show ?thesis
      proof
        assume c: "fst y = Some Canceled"
        with y Pair Return have "st1 = st \<and> ctxDone ev st"
          by (auto simp add: drainTurn_cases split: if_splits option.splits)
        then have "db (snd y) = (db st)\<lparr>lists := (moveTask src dst ^^ 0) (lists (db st))\<rparr>
          \<and> clock (snd y) = clock st + 0 \<and> ctxDone ev (snd y)" using y by simp
        then show "\<exists>k. db (snd y) = (db st)\<lparr>lists := (moveTask src dst ^^ k) (lists (db st))\<rparr>
          \<and> clock (snd y) = clock st + k \<and> ctxDone ev (snd y)" by blast
      qed
    qed
  qed
qed

lemma drain_nil_count:
  assumes "src \<noteq> dst"
  shows "defaultCleanWorkerQueue ev w src dst st = Some (None, st') \<Longrightarrow>
           db st' = drained src dst 0 (db st)
         \<and> clock st' = clock st + length (lists (db st) src) + 1"
proof (induction "length (lists (db st) src)" arbitrary: st)
  case 0
  then have e: "lists (db st) src = []" by simp
  from "0.prems" show ?case
    by (subst (asm) defaultCleanWorkerQueue.simps)
       (auto simp add: drainTurn_cases e split: option.splits if_splits)
next
  case (Suc n)
  let ?S = "lists (db st) src"
  have ne: "?S \<noteq> []" using Suc.hyps(2) by auto
  let ?st1 = "tick (setLists (moveTask src dst (lists (db st))) st)"
  from Suc.prems ne have run: "defaultCleanWorkerQueue ev w src dst ?st1 = Some (None, st')"
    by (subst (asm) defaultCleanWorkerQueue.simps)
       (auto simp add: drainTurn_cases split: option.splits if_splits)
  have len: "n = length (lists (db ?st1) src)"
    using Suc.hyps(2) assms ne by (simp add: moveTask_distinct)
  from Suc.hyps(1)[OF len run] have d: "db st' = drained src dst 0 (db ?st1)"
    and c: "clock st' = clock ?st1 + length (lists (db ?st1) src) + 1" by simp_all
  have "0 < length ?S" using ne by simp
  from drained_step[OF assms ne this] d have "db st' = drained src dst 0 (db st)" by simp
  moreover have "clock st' = clock st + length ?S + 1"
    using c len Suc.hyps(2) by simp
  ultimately show ?case by simp
qed

text \<open>
  Claim C2. The source and the destination are two queues. While the context is not done
  and the store answers, the drain on an empty source returns nil after that one call, and
  on a source that is not empty it is the drain again on the store in which the last
  element of the source has become the head of the destination. In an environment without
  faults and cancellation it returns nil; and whenever it returns nil, it has made exactly
  as many such moves as the source had elements, in one store call each and one more that
  found the source empty, so the source is empty, the destination is the old source
  followed by the old destination, head to tail, and nothing else in the store has changed.
\<close>

theorem drainQueue_moves_in_order:
  assumes "src \<noteq> dst"
  shows "(quiet ev \<longrightarrow> (\<exists>st'. defaultCleanWorkerQueue ev w src dst st = Some (None, st')))
       \<and> (\<forall>st'. defaultCleanWorkerQueue ev w src dst st = Some (None, st') \<longrightarrow>
             db st' = (db st)\<lparr>lists :=
                 (moveTask src dst ^^ length (lists (db st) src)) (lists (db st))\<rparr>
           \<and> clock st' = clock st + length (lists (db st) src) + 1
           \<and> lists (db st') =
                (lists (db st))(src := [], dst := lists (db st) src @ lists (db st) dst)
           \<and> sets (db st') = sets (db st) \<and> keys (db st') = keys (db st))
       \<and> (\<not> ctxDone ev st \<and> fault ev (clock st) = None \<longrightarrow>
             defaultCleanWorkerQueue ev w src dst st =
               (if lists (db st) src = [] then Some (None, tick st)
                else defaultCleanWorkerQueue ev w src dst
                       (tick (setLists
                          ((lists (db st))(src := butlast (lists (db st) src),
                             dst := last (lists (db st) src) # lists (db st) dst)) st))))"
proof (intro conjI allI impI)
  assume "quiet ev"
  from drain_quiet[OF assms this, of w st]
  show "\<exists>st'. defaultCleanWorkerQueue ev w src dst st = Some (None, st')" by blast
next
  fix st' assume run: "defaultCleanWorkerQueue ev w src dst st = Some (None, st')"
  from drain_nil_count[OF assms run]
  have d: "db st' = drained src dst 0 (db st)"
    and c: "clock st' = clock st + length (lists (db st) src) + 1" by simp_all
  show "clock st' = clock st + length (lists (db st) src) + 1" by (rule c)
  show "db st' = (db st)\<lparr>lists :=
                 (moveTask src dst ^^ length (lists (db st) src)) (lists (db st))\<rparr>"
    by (simp add: d drained_def moves_drained[OF assms])
  show "lists (db st') =
                (lists (db st))(src := [], dst := lists (db st) src @ lists (db st) dst)"
    by (simp add: d drained_def)
  show "sets (db st') = sets (db st)" by (simp add: d drained_def)
  show "keys (db st') = keys (db st)" by (simp add: d drained_def)
next
  assume a: "\<not> ctxDone ev st \<and> fault ev (clock st) = None"
  show "defaultCleanWorkerQueue ev w src dst st =
               (if lists (db st) src = [] then Some (None, tick st)
                else defaultCleanWorkerQueue ev w src dst
                       (tick (setLists
                          ((lists (db st))(src := butlast (lists (db st) src),
                             dst := last (lists (db st) src) # lists (db st) dst)) st)))"
    using a assms
    by (subst defaultCleanWorkerQueue.simps)
       (simp add: drainTurn_cases moveTask_distinct)
qed

theorem drainQueue_moves_in_order_witness:
  "''a:w1'' \<noteq> ''pq'' \<and> quiet quietEnv
   \<and> \<not> ctxDone quietEnv exState \<and> fault quietEnv (clock exState) = None
   \<and> lists (db exState) ''a:w1'' = [''t1'', ''t2'']
   \<and> lists (db exState) ''pq'' = [''t0'']
   \<and> (\<exists>st'. defaultCleanWorkerQueue quietEnv ''w1'' ''a:w1'' ''pq'' exState = Some (None, st')
         \<and> lists (db st') ''a:w1'' = [] \<and> lists (db st') ''pq'' = [''t1'', ''t2'', ''t0'']
         \<and> lists (db st') ''a:w2'' = [''t4'']
         \<and> sets (db st') = sets (db exState) \<and> keys (db st') = keys (db exState)
         \<and> clock st' = 3)
   \<and> defaultCleanWorkerQueue quietEnv ''w1'' ''a:w1'' ''pq'' exState =
       defaultCleanWorkerQueue quietEnv ''w1'' ''a:w1'' ''pq''
         (tick (setLists ((lists (db exState))(''a:w1'' := [''t1''],
                            ''pq'' := [''t2'', ''t0''])) exState))"
proof -
  have ne: "''a:w1'' \<noteq> ''pq''" by simp
  have q: "quiet quietEnv" by (simp add: quiet_def quietEnv_def)
  have c: "\<not> ctxDone quietEnv exState" "fault quietEnv (clock exState) = None"
    using q by simp_all
  have l: "lists (db exState) ''a:w1'' = [''t1'', ''t2'']" "lists (db exState) ''pq'' = [''t0'']"
    "lists (db exState) ''a:w2'' = [''t4'']" "clock exState = 0"
    by (simp_all add: exState_def)
  note t = drainQueue_moves_in_order[OF ne, of quietEnv "''w1''" exState]
  note t1 = t[THEN conjunct1, rule_format, OF q]
  note t2 = t[THEN conjunct2, THEN conjunct1, rule_format]
  note t3 = t[THEN conjunct2, THEN conjunct2, rule_format, OF conjI[OF c]]
  from t1 obtain st' where
    run: "defaultCleanWorkerQueue quietEnv ''w1'' ''a:w1'' ''pq'' exState = Some (None, st')"
    by (rule exE)
  note r = t2[OF run, THEN conjunct2]
  have 1: "lists (db st') ''a:w1'' = [] \<and> lists (db st') ''pq'' = [''t1'', ''t2'', ''t0'']
         \<and> lists (db st') ''a:w2'' = [''t4'']
         \<and> sets (db st') = sets (db exState) \<and> keys (db st') = keys (db exState)
         \<and> clock st' = 3"
    using r by (simp add: l)
  have 2: "defaultCleanWorkerQueue quietEnv ''w1'' ''a:w1'' ''pq'' exState =
       defaultCleanWorkerQueue quietEnv ''w1'' ''a:w1'' ''pq''
         (tick (setLists ((lists (db exState))(''a:w1'' := [''t1''],
                            ''pq'' := [''t2'', ''t0''])) exState))"
    by (subst t3) (simp add: l)
  have "\<exists>st'. defaultCleanWorkerQueue quietEnv ''w1'' ''a:w1'' ''pq'' exState = Some (None, st')
         \<and> lists (db st') ''a:w1'' = [] \<and> lists (db st') ''pq'' = [''t1'', ''t2'', ''t0'']
         \<and> lists (db st') ''a:w2'' = [''t4'']
         \<and> sets (db st') = sets (db exState) \<and> keys (db st') = keys (db exState)
         \<and> clock st' = 3"
    by (rule exI[of _ st'], rule conjI[OF run 1])
  then show ?thesis
    by (intro conjI) (rule ne q c l(1) l(2) 2 | assumption)+
qed

text \<open>
  Claim C6. The context is looked at before each move and only there: a drain entered
  with the context done returns the cancellation error and the state it was given, with no
  store call; a drain entered with the context not done issues the single command
  RPOPLPUSH, which pops and pushes in one step, and looks at the context again only after
  it, at the start of the next turn. So when the drain returns the cancellation error, the
  context is done in the state it returns, that state is the starting one after a whole
  number \<open>k\<close> of moves, made in \<open>k\<close> store calls, and, for two different queues, the
  source followed by the destination is the same sequence of tasks as before: no task is
  in both queues or in neither, and no other queue has changed.
\<close>

theorem drainQueue_cancel_between_moves:
  "(ctxDone ev st \<longrightarrow> defaultCleanWorkerQueue ev w src dst st = Some (Some Canceled, st))
   \<and> (\<not> ctxDone ev st \<longrightarrow>
        defaultCleanWorkerQueue ev w src dst st =
          (case RPopLPush ev src dst st of
             (Inl e, st1) \<Rightarrow>
               Some (if e = RedisNil then None else Some (ErrCleaningUp w src e), st1)
           | (Inr x, st1) \<Rightarrow> defaultCleanWorkerQueue ev w src dst st1))
   \<and> (\<forall>st'. defaultCleanWorkerQueue ev w src dst st = Some (Some Canceled, st') \<longrightarrow>
         ctxDone ev st'
       \<and> (\<exists>k. db st' = (db st)\<lparr>lists := (moveTask src dst ^^ k) (lists (db st))\<rparr>
              \<and> clock st' = clock st + k)
       \<and> (src \<noteq> dst \<longrightarrow>
            lists (db st') src @ lists (db st') dst = lists (db st) src @ lists (db st) dst
          \<and> (\<forall>q. q \<noteq> src \<and> q \<noteq> dst \<longrightarrow> lists (db st') q = lists (db st) q)))"
proof (intro conjI allI impI)
  assume "ctxDone ev st"
  then show "defaultCleanWorkerQueue ev w src dst st = Some (Some Canceled, st)"
    by (rule drain_unfold_done)
next
  assume "\<not> ctxDone ev st"
  then show "defaultCleanWorkerQueue ev w src dst st =
          (case RPopLPush ev src dst st of
             (Inl e, st1) \<Rightarrow>
               Some (if e = RedisNil then None else Some (ErrCleaningUp w src e), st1)
           | (Inr x, st1) \<Rightarrow> defaultCleanWorkerQueue ev w src dst st1)"
    by (rule drain_unfold_call)
next
  fix st' assume run: "defaultCleanWorkerQueue ev w src dst st = Some (Some Canceled, st')"
  from drain_canceled_count_aux[OF run]
  show "ctxDone ev st'"
    and "\<exists>k. db st' = (db st)\<lparr>lists := (moveTask src dst ^^ k) (lists (db st))\<rparr>
              \<and> clock st' = clock st + k" by auto
  assume ne: "src \<noteq> dst"
  from drain_total[OF ne, of ev w st] run obtain j where
    d: "db st' = drained src dst j (db st)" by auto
  show "lists (db st') src @ lists (db st') dst = lists (db st) src @ lists (db st) dst"
    using ne by (simp add: d drained_def)
  show "\<And>q. q \<noteq> src \<and> q \<noteq> dst \<Longrightarrow> lists (db st') q = lists (db st) q"
    by (simp add: d drained_def)
qed

theorem drainQueue_cancel_between_moves_witness:
  "ctxDone doneEnv exState
   \<and> defaultCleanWorkerQueue doneEnv ''w1'' ''a:w1'' ''pq'' exState
       = Some (Some Canceled, exState)
   \<and> \<not> ctxDone cancelEnv exState
   \<and> defaultCleanWorkerQueue cancelEnv ''w1'' ''a:w1'' ''pq'' exState =
     Some (Some Canceled, tick (setLists (moveTask ''a:w1'' ''pq'' (lists (db exState))) exState))
   \<and> ''a:w1'' \<noteq> ''pq''
   \<and> lists (db (tick (setLists (moveTask ''a:w1'' ''pq'' (lists (db exState))) exState))) ''a:w1''
       = [''t1'']
   \<and> lists (db (tick (setLists (moveTask ''a:w1'' ''pq'' (lists (db exState))) exState))) ''pq''
       = [''t2'', ''t0'']
   \<and> ctxDone cancelEnv (tick (setLists (moveTask ''a:w1'' ''pq'' (lists (db exState))) exState))"
proof -
  let ?s1 = "tick (setLists (moveTask ''a:w1'' ''pq'' (lists (db exState))) exState)"
  have d0: "ctxDone doneEnv exState" by (simp add: ctxDone_def doneEnv_def)
  have n0: "\<not> ctxDone cancelEnv exState"
    by (simp add: ctxDone_def cancelEnv_def exState_def)
  have d1: "ctxDone cancelEnv ?s1" by (simp add: ctxDone_def cancelEnv_def exState_def)
  have rp: "RPopLPush cancelEnv ''a:w1'' ''pq'' exState = (Inr ''t2'', ?s1)"
    by (simp add: RPopLPush_def cancelEnv_def exState_def)
  note a = drainQueue_cancel_between_moves[of doneEnv exState "''w1''" "''a:w1''" "''pq''"]
  note b = drainQueue_cancel_between_moves[of cancelEnv exState "''w1''" "''a:w1''" "''pq''"]
  note c = drainQueue_cancel_between_moves[of cancelEnv ?s1 "''w1''" "''a:w1''" "''pq''"]
  note 1 = a[THEN conjunct1, rule_format, OF d0]
  note c1 = c[THEN conjunct1, rule_format, OF d1]
  note b2 = b[THEN conjunct2, THEN conjunct1, rule_format, OF n0]
  have 2: "defaultCleanWorkerQueue cancelEnv ''w1'' ''a:w1'' ''pq'' exState =
     Some (Some Canceled, ?s1)"
    by (subst b2, simp only: rp prod.case sum.case, rule c1)
  have l: "lists (db ?s1) ''a:w1'' = [''t1'']" "lists (db ?s1) ''pq'' = [''t2'', ''t0'']"
    by (simp_all add: exState_def moveTask_def Let_def)
  have ne: "''a:w1'' \<noteq> ''pq''" by simp
  show ?thesis
    by (intro conjI) (rule d0 1 n0 2 ne l d1)+
qed

text \<open>
  Claim C10, amended. When the source and the destination are different queues, the drain
  returns in every environment; each turn that goes round again has shortened the source
  by one; and without faults and cancellation it returns nil after exactly as many moves
  as the source had elements, which take one store call each, followed by the call that
  finds the source empty. With the source as its own destination a turn rotates the queue
  and, the queue not being empty, the drain never returns, as the counterexample shows.
\<close>

theorem drainQueue_terminates:
  assumes "src \<noteq> dst"
  shows "(\<exists>r st'. defaultCleanWorkerQueue ev w src dst st = Some (r, st'))
       \<and> (\<forall>st1. drainTurn ev w src dst st = (Again, st1) \<longrightarrow>
             Suc (length (lists (db st1) src)) = length (lists (db st) src))
       \<and> (quiet ev \<longrightarrow>
            (\<exists>st'. defaultCleanWorkerQueue ev w src dst st = Some (None, st')
               \<and> db st' = (db st)\<lparr>lists :=
                    (moveTask src dst ^^ length (lists (db st) src)) (lists (db st))\<rparr>
               \<and> lists (db st') src = []
               \<and> clock st' = clock st + length (lists (db st) src) + 1))"
proof (intro conjI allI impI)
  from drain_total[OF assms, of ev w st]
  show "\<exists>r st'. defaultCleanWorkerQueue ev w src dst st = Some (r, st')" by blast
next
  fix st1 assume "drainTurn ev w src dst st = (Again, st1)"
  then have "lists (db st) src \<noteq> []
      \<and> st1 = tick (setLists (moveTask src dst (lists (db st))) st)"
    by (auto simp add: drainTurn_cases split: if_splits option.splits)
  then show "Suc (length (lists (db st1) src)) = length (lists (db st) src)"
    using assms by (simp add: moveTask_distinct)
next
  assume "quiet ev"
  from drain_quiet[OF assms this, of w st] obtain st' where
    r: "defaultCleanWorkerQueue ev w src dst st = Some (None, st')"
    and d: "db st' = drained src dst 0 (db st)"
    and c: "clock st' = clock st + length (lists (db st) src) + 1" by blast
  have "db st' = (db st)\<lparr>lists :=
          (moveTask src dst ^^ length (lists (db st) src)) (lists (db st))\<rparr>"
    by (simp add: d drained_def moves_drained[OF assms])
  moreover have "lists (db st') src = []" using assms by (simp add: d drained_def)
  ultimately show "\<exists>st'. defaultCleanWorkerQueue ev w src dst st = Some (None, st')
               \<and> db st' = (db st)\<lparr>lists :=
                    (moveTask src dst ^^ length (lists (db st) src)) (lists (db st))\<rparr>
               \<and> lists (db st') src = []
               \<and> clock st' = clock st + length (lists (db st) src) + 1"
    using r c by blast
qed

theorem drainQueue_terminates_witness:
  "''a:w1'' \<noteq> ''pq'' \<and> quiet quietEnv
   \<and> drainTurn quietEnv ''w1'' ''a:w1'' ''pq'' exState =
       (Again, tick (setLists (moveTask ''a:w1'' ''pq'' (lists (db exState))) exState))
   \<and> length (lists (db exState) ''a:w1'') = 2
   \<and> (\<exists>st'. defaultCleanWorkerQueue quietEnv ''w1'' ''a:w1'' ''pq'' exState = Some (None, st')
         \<and> lists (db st') ''a:w1'' = [] \<and> clock st' = 3)"
proof -
  have q: "quiet quietEnv" by (simp add: quiet_def quietEnv_def)
  have ne: "''a:w1'' \<noteq> ''pq''" by simp
  have t: "drainTurn quietEnv ''w1'' ''a:w1'' ''pq'' exState =
       (Again, tick (setLists (moveTask ''a:w1'' ''pq'' (lists (db exState))) exState))"
    using q by (simp add: drainTurn_cases exState_def)
  from drainQueue_terminates[OF ne, of quietEnv "''w1''" exState] q t show ?thesis
    by (auto simp add: exState_def)
qed

theorem drainQueue_same_queue_counterexample:
  "defaultCleanWorkerQueue quietEnv ''w1'' ''a:w1'' ''a:w1'' exState = None
   \<and> fst (drainTurn quietEnv ''w1'' ''a:w1'' ''a:w1'' exState) = Again
   \<and> length (lists (db (snd (drainTurn quietEnv ''w1'' ''a:w1'' ''a:w1'' exState))) ''a:w1'')
       = length (lists (db exState) ''a:w1'')"
proof -
  have q: "quiet quietEnv" by (simp add: quiet_def quietEnv_def)
  have ne: "lists (db exState) ''a:w1'' \<noteq> []" by (simp add: exState_def)
  from drain_rotates_forever[OF q ne]
  have "defaultCleanWorkerQueue quietEnv ''w1'' ''a:w1'' ''a:w1'' exState = None" .
  moreover have "drainTurn quietEnv ''w1'' ''a:w1'' ''a:w1'' exState =
      (Again, tick (setLists (moveTask ''a:w1'' ''a:w1'' (lists (db exState))) exState))"
    using q ne by (simp add: drainTurn_cases)
  ultimately show ?thesis by (simp add: exState_def moveTask_def Let_def)
qed

section \<open>The record store: reads and deletions\<close>

lemma Get_db [simp]: "db (snd (Get ev k st)) = db st"
  by (simp add: Get_def split: option.splits)

lemma GetInstance_db: "db (snd (GetInstance ev sp iid st)) = db st"
proof -
  have "snd (GetInstance ev sp iid st) = snd (Get ev (getInstanceKey iid) st)"
    by (simp add: GetInstance_def split: prod.splits sum.splits option.splits)
  then show ?thesis by simp
qed

lemma GetBinding_db: "db (snd (GetBinding ev sp bid st)) = db st"
proof -
  have "snd (GetBinding ev sp bid st) = snd (Get ev (getBindingKey bid) st)"
    by (simp add: GetBinding_def split: prod.splits sum.splits option.splits)
  then show ?thesis by simp
qed

lemma DeleteInstance_absent:
  assumes "keys (db st) (getInstanceKey iid) = None"
  shows "db (snd (DeleteInstance ev iid st)) = db st
       \<and> (fault ev (clock st) = None \<longrightarrow> DeleteInstance ev iid st = ((False, None), tick st))"
  using assms by (simp add: DeleteInstance_def Get_def split: option.splits)

lemma DeleteBinding_absent:
  assumes "keys (db st) (getBindingKey bid) = None"
  shows "db (snd (DeleteBinding ev bid st)) = db st
       \<and> (fault ev (clock st) = None \<longrightarrow> DeleteBinding ev bid st = ((False, None), tick st))"
  using assms by (simp add: DeleteBinding_def Get_def split: option.splits)

text \<open>
  Claim C8. For an ID with no record under its key, \<open>GetInstance\<close>, \<open>GetBinding\<close>,
  \<open>DeleteInstance\<close> and \<open>DeleteBinding\<close> leave the store as it was, and when the
  store answers the GET (its answer is then \<open>redis.Nil\<close>, not a fault) the two reads
  return found = false and the two deletions deleted = false, each with a nil error.
\<close>

theorem absent_record_is_not_found:
  "(keys (db st) (getInstanceKey iid) = None \<longrightarrow>
      db (snd (GetInstance ev sp iid st)) = db st
    \<and> db (snd (DeleteInstance ev iid st)) = db st
    \<and> (fault ev (clock st) = None \<longrightarrow>
          fst (GetInstance ev sp iid st) = (emptyInstance, False, None)
        \<and> fst (DeleteInstance ev iid st) = (False, None)))
   \<and> (keys (db st) (getBindingKey bid) = None \<longrightarrow>
      db (snd (GetBinding ev sp bid st)) = db st
    \<and> db (snd (DeleteBinding ev bid st)) = db st
    \<and> (fault ev (clock st) = None \<longrightarrow>
          fst (GetBinding ev sp bid st) = (emptyBinding, False, None)
        \<and> fst (DeleteBinding ev bid st) = (False, None)))"
proof (intro conjI impI)
  assume a: "keys (db st) (getInstanceKey iid) = None"
  show "db (snd (GetInstance ev sp iid st)) = db st" by (rule GetInstance_db)
  show "db (snd (DeleteInstance ev iid st)) = db st"
    using DeleteInstance_absent[OF a] by simp
  assume f: "fault ev (clock st) = None"
  show "fst (GetInstance ev sp iid st) = (emptyInstance, False, None)"
    using a f by (simp add: GetInstance_def Get_def)
  show "fst (DeleteInstance ev iid st) = (False, None)"
    using DeleteInstance_absent[OF a, of ev] f by simp
next
  assume a: "keys (db st) (getBindingKey bid) = None"
  show "db (snd (GetBinding ev sp bid st)) = db st" by (rule GetBinding_db)
  show "db (snd (DeleteBinding ev bid st)) = db st"
    using DeleteBinding_absent[OF a] by simp
  assume f: "fault ev (clock st) = None"
  show "fst (GetBinding ev sp bid st) = (emptyBinding, False, None)"
    using a f by (simp add: GetBinding_def Get_def)
  show "fst (DeleteBinding ev bid st) = (False, None)"
    using DeleteBinding_absent[OF a, of ev] f by simp
qed

theorem absent_record_is_not_found_witness:
  "keys (db exRecords) (getInstanceKey ''i0'') = None
   \<and> keys (db exRecords) (getBindingKey ''b0'') = None
   \<and> fault quietEnv (clock exRecords) = None
   \<and> fst (GetInstance quietEnv exPkg ''i0'' exRecords) = (emptyInstance, False, None)
   \<and> fst (DeleteInstance quietEnv ''i0'' exRecords) = (False, None)
   \<and> fst (GetBinding quietEnv exPkg ''b0'' exRecords) = (emptyBinding, False, None)
   \<and> fst (DeleteBinding quietEnv ''b0'' exRecords) = (False, None)
   \<and> db (snd (GetInstance quietEnv exPkg ''i0'' exRecords)) = db exRecords
   \<and> db (snd (DeleteInstance quietEnv ''i0'' exRecords)) = db exRecords
   \<and> db (snd (GetBinding quietEnv exPkg ''b0'' exRecords)) = db exRecords
   \<and> db (snd (DeleteBinding quietEnv ''b0'' exRecords)) = db exRecords"
proof -
  have a: "keys (db exRecords) (getInstanceKey ''i0'') = None"
    by (simp add: exRecords_def getInstanceKey_def)
  have b: "keys (db exRecords) (getBindingKey ''b0'') = None"
    by (simp add: exRecords_def getBindingKey_def)
  have f: "fault quietEnv (clock exRecords) = None" by (simp add: quietEnv_def)
  from absent_record_is_not_found[of exRecords "''i0''" quietEnv exPkg "''b0''"] a b f
  show ?thesis by simp
qed

lemma GetInstance_unknown:
  assumes "keys (db st) (getInstanceKey iid) = Some bytes"
      and "NewInstanceFromJSON sp bytes None = (inst, derr)"
      and "GetService sp (ServiceID inst) = None
           \<or> (\<exists>svc. GetService sp (ServiceID inst) = Some svc
                  \<and> GetPlan sp svc (PlanID inst) = None)"
  shows "(\<exists>e. snd (fst (GetInstance ev sp iid st)) = (False, Some e))
       \<and> (fault ev (clock st) = None \<and> derr = None \<longrightarrow>
            fst (GetInstance ev sp iid st) =
              (inst, False,
               Some (if GetService sp (ServiceID inst) = None
                     then ErrServiceNotFound (ServiceID inst)
                     else ErrPlanNotFound (PlanID inst) (ServiceID inst))))"
  using assms
  by (auto simp add: GetInstance_def Get_def split: option.splits)

lemma GetBinding_unknown:
  assumes "keys (db st) (getBindingKey bid) = Some bytes"
      and "NewBindingFromJSON sp bytes None = (b, derr)"
      and "GetService sp (BindingServiceID b) = None"
  shows "(\<exists>e. snd (fst (GetBinding ev sp bid st)) = (False, Some e))
       \<and> (fault ev (clock st) = None \<and> derr = None \<longrightarrow>
            fst (GetBinding ev sp bid st) =
              (b, False, Some (ErrServiceNotFound (BindingServiceID b))))"
  using assms
  by (auto simp add: GetBinding_def Get_def split: option.splits)


text \<open>
  Claim C9. When the record stored for an instance names a service that the catalog does
  not have, or a plan that its service does not have, \<open>GetInstance\<close> returns found =
  false and an error, whatever the store and the decoder do; when the store answers and
  the record decodes, the error is the one naming the missing service or plan. The same
  holds of \<open>GetBinding\<close> and the service of a binding. Neither changes the store.
\<close>

theorem unknown_reference_is_an_error:
  "(keys (db st) (getInstanceKey iid) = Some bytes
      \<and> NewInstanceFromJSON sp bytes None = (inst, derr)
      \<and> (GetService sp (ServiceID inst) = None
           \<or> (\<exists>svc. GetService sp (ServiceID inst) = Some svc
                  \<and> GetPlan sp svc (PlanID inst) = None)) \<longrightarrow>
      (\<exists>e. snd (fst (GetInstance ev sp iid st)) = (False, Some e))
    \<and> db (snd (GetInstance ev sp iid st)) = db st
    \<and> (fault ev (clock st) = None \<and> derr = None \<longrightarrow>
          fst (GetInstance ev sp iid st) =
            (inst, False,
             Some (if GetService sp (ServiceID inst) = None
                   then ErrServiceNotFound (ServiceID inst)
                   else ErrPlanNotFound (PlanID inst) (ServiceID inst)))))
   \<and> (keys (db st) (getBindingKey bid) = Some bbytes
      \<and> NewBindingFromJSON sp bbytes None = (b, berr)
      \<and> GetService sp (BindingServiceID b) = None \<longrightarrow>
      (\<exists>e. snd (fst (GetBinding ev sp bid st)) = (False, Some e))
    \<and> db (snd (GetBinding ev sp bid st)) = db st
    \<and> (fault ev (clock st) = None \<and> berr = None \<longrightarrow>
          fst (GetBinding ev sp bid st) =
            (b, False, Some (ErrServiceNotFound (BindingServiceID b)))))"
proof (intro conjI impI)
  assume a: "keys (db st) (getInstanceKey iid) = Some bytes
      \<and> NewInstanceFromJSON sp bytes None = (inst, derr)
      \<and> (GetService sp (ServiceID inst) = None
           \<or> (\<exists>svc. GetService sp (ServiceID inst) = Some svc
                  \<and> GetPlan sp svc (PlanID inst) = None))"
  then have k: "keys (db st) (getInstanceKey iid) = Some bytes"
    and d: "NewInstanceFromJSON sp bytes None = (inst, derr)"
    and m: "GetService sp (ServiceID inst) = None
           \<or> (\<exists>svc. GetService sp (ServiceID inst) = Some svc
                  \<and> GetPlan sp svc (PlanID inst) = None)" by blast+
  note r = GetInstance_unknown[OF k d m, of ev]
  from r show "\<exists>e. snd (fst (GetInstance ev sp iid st)) = (False, Some e)" by blast
  show "db (snd (GetInstance ev sp iid st)) = db st" by (rule GetInstance_db)
  assume "fault ev (clock st) = None \<and> derr = None"
  with r show "fst (GetInstance ev sp iid st) =
            (inst, False,
             Some (if GetService sp (ServiceID inst) = None
                   then ErrServiceNotFound (ServiceID inst)
                   else ErrPlanNotFound (PlanID inst) (ServiceID inst)))" by blast
next
  assume a: "keys (db st) (getBindingKey bid) = Some bbytes
      \<and> NewBindingFromJSON sp bbytes None = (b, berr)
      \<and> GetService sp (BindingServiceID b) = None"
  then have k: "keys (db st) (getBindingKey bid) = Some bbytes"
    and d: "NewBindingFromJSON sp bbytes None = (b, berr)"
    and m: "GetService sp (BindingServiceID b) = None" by blast+
  note r = GetBinding_unknown[OF k d m, of ev]
  from r show "\<exists>e. snd (fst (GetBinding ev sp bid st)) = (False, Some e)" by blast
  show "db (snd (GetBinding ev sp bid st)) = db st" by (rule GetBinding_db)
  assume "fault ev (clock st) = None \<and> berr = None"
  with r show "fst (GetBinding ev sp bid st) =
            (b, False, Some (ErrServiceNotFound (BindingServiceID b)))" by blast
qed

theorem unknown_reference_is_an_error_witness:
  "keys (db exRecords) (getInstanceKey ''i1'') = Some ''s9p1''
   \<and> GetService exPkg ''s9'' = None
   \<and> snd (fst (GetInstance quietEnv exPkg ''i1'' exRecords)) =
        (False, Some (ErrServiceNotFound ''s9''))
   \<and> db (snd (GetInstance quietEnv exPkg ''i1'' exRecords)) = db exRecords
   \<and> keys (db exRecords) (getInstanceKey ''i2'') = Some ''s1p9''
   \<and> GetService exPkg ''s1'' = Some ''s1'' \<and> GetPlan exPkg ''s1'' ''p9'' = None
   \<and> snd (fst (GetInstance quietEnv exPkg ''i2'' exRecords)) =
        (False, Some (ErrPlanNotFound ''p9'' ''s1''))
   \<and> keys (db exRecords) (getBindingKey ''b1'') = Some ''s9''
   \<and> snd (fst (GetBinding quietEnv exPkg ''b1'' exRecords)) =
        (False, Some (ErrServiceNotFound ''s9''))
   \<and> db (snd (GetBinding quietEnv exPkg ''b1'' exRecords)) = db exRecords"
proof -
  let ?i1 = "\<lparr>InstanceID = ''i'', ServiceID = ''s9'', PlanID = ''p1'',
             Service = None :: string option, Plan = None :: string option\<rparr>"
  let ?i2 = "\<lparr>InstanceID = ''i'', ServiceID = ''s1'', PlanID = ''p9'',
             Service = None :: string option, Plan = None :: string option\<rparr>"
  let ?b1 = "\<lparr>BindingID = ''b'', BindingServiceID = ''s9''\<rparr>"
  have k: "keys (db exRecords) (getInstanceKey ''i1'') = Some ''s9p1''"
     "keys (db exRecords) (getInstanceKey ''i2'') = Some ''s1p9''"
     "keys (db exRecords) (getBindingKey ''b1'') = Some ''s9''"
    by (simp_all add: exRecords_def getInstanceKey_def getBindingKey_def)
  have d: "NewInstanceFromJSON exPkg ''s9p1'' None = (?i1, None)"
     "NewInstanceFromJSON exPkg ''s1p9'' None = (?i2, None)"
     "NewBindingFromJSON exPkg ''s9'' None = (?b1, None)"
    by (simp_all add: exPkg_def)
  have g: "GetService exPkg ''s9'' = None" "GetService exPkg ''s1'' = Some ''s1''"
     "GetPlan exPkg ''s1'' ''p9'' = None"
    by (simp_all add: exPkg_def)
  have f: "fault quietEnv (clock exRecords) = None" by (simp add: quietEnv_def)
  from unknown_reference_is_an_error[of exRecords "''i1''" "''s9p1''" exPkg ?i1 None
         quietEnv "''b1''" "''s9''" ?b1 None]
       unknown_reference_is_an_error[of exRecords "''i2''" "''s1p9''" exPkg ?i2 None
         quietEnv "''b1''" "''s9''" ?b1 None]
       k d g f
  show ?thesis by simp
qed

section \<open>The cleaner's sweep\<close>

lemma cleanTurn_fault:
  assumes "fault ev (clock st) = Some m"
  shows "cleanTurn ev nm ws pq dq w st =
           Some (Return (Some (ErrCheckingHealth w (StoreFault m))), tick st)"
  using assms by (simp add: cleanTurn_def Get_def)

lemma cleanTurn_alive:
  assumes "fault ev (clock st) = None" "keys (db st) (getHeartbeatKey nm w) = Some v"
  shows "cleanTurn ev nm ws pq dq w st = Some (checkpoint ev (tick st), tick st)"
  using assms by (simp add: cleanTurn_def Get_def)

lemma cleanTurn_dead:
  assumes "fault ev (clock st) = None" "keys (db st) (getHeartbeatKey nm w) = None"
  shows "cleanTurn ev nm ws pq dq w st =
     (case defaultCleanWorkerQueue ev w (getActiveTaskQueueName nm w) pq (tick st) of
        None \<Rightarrow> None
      | Some (Some e1, st2) \<Rightarrow> Some (Return (Some e1), st2)
      | Some (None, st2) \<Rightarrow>
          (case defaultCleanWorkerQueue ev w (getWatchedTaskQueueName nm w) dq st2 of
             None \<Rightarrow> None
           | Some (Some e2, st3) \<Rightarrow> Some (Return (Some e2), st3)
           | Some (None, st3) \<Rightarrow>
               (case fault ev (clock st3) of
                  Some m \<Rightarrow> Some (Return (Some (ErrRemovingWorker w (StoreFault m))), tick st3)
                | None \<Rightarrow>
                    Some (checkpoint ev (tick st3),
                          tick (setSets ((sets (db st3))(ws := removeAll w (sets (db st3) ws)))
                                  st3)))))"
  using assms
  by (simp add: cleanTurn_def Get_def cleanActiveTaskQueue_def cleanWatchedTaskQueue_def
      SRem_def checkpoint_def ctxDone_def
      split: option.splits prod.splits)


lemma checkpoint_not_nil [simp]: "checkpoint ev st \<noteq> Return None"
  by (simp add: checkpoint_def)

lemma removed_False [simp]: "removed ws v False d = d" by (simp add: removed_def)

lemma turn_shape:
  assumes "getActiveTaskQueueName nm v \<noteq> pq" "getWatchedTaskQueueName nm v \<noteq> dq"
  shows "\<exists>fl st' j1 j2 rm.
           cleanTurn ev nm ws pq dq v st = Some (fl, st')
         \<and> db st' = turnEffect (getActiveTaskQueueName nm v) pq
                       (getWatchedTaskQueueName nm v) dq ws v j1 j2 rm (db st)
         \<and> (rm \<longrightarrow> j1 = 0 \<and> j2 = 0 \<and> keys (db st) (getHeartbeatKey nm v) = None)
         \<and> (keys (db st) (getHeartbeatKey nm v) \<noteq> None \<longrightarrow> db st' = db st)
         \<and> (fl = Again \<and> keys (db st) (getHeartbeatKey nm v) = None \<longrightarrow> rm)
         \<and> fl \<noteq> Return None \<and> clock st \<le> clock st'"
proof -
  let ?a = "getActiveTaskQueueName nm v" and ?b = "getWatchedTaskQueueName nm v"
  let ?P = "\<lambda>fl st' j1 j2 rm. cleanTurn ev nm ws pq dq v st = Some (fl, st')
         \<and> db st' = turnEffect ?a pq ?b dq ws v j1 j2 rm (db st)
         \<and> (rm \<longrightarrow> j1 = 0 \<and> j2 = 0 \<and> keys (db st) (getHeartbeatKey nm v) = None)
         \<and> (keys (db st) (getHeartbeatKey nm v) \<noteq> None \<longrightarrow> db st' = db st)
         \<and> (fl = Again \<and> keys (db st) (getHeartbeatKey nm v) = None \<longrightarrow> rm)
         \<and> fl \<noteq> Return None \<and> clock st \<le> clock st'"
  have same: "turnEffect ?a pq ?b dq ws v (length (lists d ?a)) (length (lists d ?b)) False d = d"
    for d by (simp add: turnEffect_def)
  show ?thesis
  proof (cases "fault ev (clock st)")
    case (Some m)
    have "?P (Return (Some (ErrCheckingHealth v (StoreFault m)))) (tick st)
            (length (lists (db st) ?a)) (length (lists (db st) ?b)) False"
      by (simp add: cleanTurn_fault[OF Some] same)
    then show ?thesis by blast
  next
    case None
    show ?thesis
    proof (cases "keys (db st) (getHeartbeatKey nm v)")
      case (Some val)
      have "?P (checkpoint ev (tick st)) (tick st)
              (length (lists (db st) ?a)) (length (lists (db st) ?b)) False"
        by (simp add: cleanTurn_alive[OF None Some] same Some)
      then show ?thesis by blast
    next
      case dead: None
      note eq = cleanTurn_dead[OF None dead, of ws pq dq]
      from drain_total[OF assms(1), of ev v "tick st"] obtain r1 st2 j1 where
        r1: "defaultCleanWorkerQueue ev v ?a pq (tick st) = Some (r1, st2)"
        and d1: "db st2 = drained ?a pq j1 (db st)"
        and z1: "r1 = None \<longrightarrow> j1 = 0" and c1: "clock st \<le> clock st2"
        by auto
      show ?thesis
      proof (cases r1)
        case (Some e1)
        have "?P (Return (Some e1)) st2 j1 (length (lists (db st2) ?b)) False"
          using c1 by (simp add: eq r1 Some turnEffect_def d1[symmetric] dead)
        then show ?thesis by blast
      next
        case n1: None
        from drain_total[OF assms(2), of ev v st2] obtain r2 st3 j2 where
          r2: "defaultCleanWorkerQueue ev v ?b dq st2 = Some (r2, st3)"
          and d2: "db st3 = drained ?b dq j2 (db st2)"
          and z2: "r2 = None \<longrightarrow> j2 = 0" and c2: "clock st2 \<le> clock st3"
          by auto
        show ?thesis
        proof (cases r2)
          case (Some e2)
          have "?P (Return (Some e2)) st3 j1 j2 False"
            using c1 c2 by (simp add: eq r1 n1 r2 Some turnEffect_def d1 d2 dead)
          then show ?thesis by blast
        next
          case n2: None
          show ?thesis
          proof (cases "fault ev (clock st3)")
            case (Some m)
            have "?P (Return (Some (ErrRemovingWorker v (StoreFault m)))) (tick st3) j1 j2 False"
              using c1 c2 by (simp add: eq r1 n1 r2 n2 Some turnEffect_def d1 d2 dead)
            then show ?thesis by blast
          next
            case f3: None
            have "?P (checkpoint ev (tick st3))
                    (tick (setSets ((sets (db st3))(ws := removeAll v (sets (db st3) ws))) st3))
                    j1 j2 True"
              using c1 c2 z1 z2 n1 n2
              by (simp add: eq r1 r2 f3 turnEffect_def removed_def d1 d2 dead)
            then show ?thesis by blast
          qed
        qed
      qed
    qed
  qed
qed


lemma te_keys [simp]: "keys (turnEffect a pq b dq ws v j1 j2 rm d) = keys d"
  by (simp add: turnEffect_def removed_def drained_def)

lemma te_sets:
  "sets (turnEffect a pq b dq ws v j1 j2 rm d) =
     (if rm then (sets d)(ws := removeAll v (sets d ws)) else sets d)"
  by (simp add: turnEffect_def removed_def drained_def)

lemma te_other:
  "q \<notin> {a, b, pq, dq} \<Longrightarrow> lists (turnEffect a pq b dq ws v j1 j2 rm d) q = lists d q"
  by (simp add: turnEffect_def removed_def drained_def)

lemma te_a:
  "a \<notin> {pq, dq, b} \<Longrightarrow>
     lists (turnEffect a pq b dq ws v j1 j2 rm d) a = take j1 (lists d a)"
  by (simp add: turnEffect_def removed_def drained_def)

lemma te_b:
  "b \<notin> {pq, dq, a} \<Longrightarrow>
     lists (turnEffect a pq b dq ws v j1 j2 rm d) b = take j2 (lists d b)"
  by (simp add: turnEffect_def removed_def drained_def)

lemma te_pq:
  "pq \<notin> {a, b} \<Longrightarrow>
     set (drop j1 (lists d a)) \<union> set (lists d pq)
       \<subseteq> set (lists (turnEffect a pq b dq ws v j1 j2 rm d) pq)"
  by (auto simp add: turnEffect_def removed_def drained_def)

lemma te_dq:
  "dq \<notin> {a, b} \<Longrightarrow> b \<notin> {a, pq} \<Longrightarrow>
     set (drop j2 (lists d b)) \<union> set (lists d dq)
       \<subseteq> set (lists (turnEffect a pq b dq ws v j1 j2 rm d) dq)"
  by (auto simp add: turnEffect_def removed_def drained_def)

lemma set_take_un_drop: "set xs = set (take j xs) \<union> set (drop j xs)"
  by (metis append_take_drop_id set_append)

lemma keeps_refl: "keeps nm pq dq ws w d d"
  by (simp add: keeps_def)

lemma keeps_trans:
  "keeps nm pq dq ws w d d1 \<Longrightarrow> keeps nm pq dq ws w d1 d2 \<Longrightarrow> keeps nm pq dq ws w d d2"
  unfolding keeps_def by (intro conjI; (simp; fail | blast))

lemma rolesDistinct_same:
  assumes "rolesDistinct nm pq dq X" "v \<in> set X"
  shows "getActiveTaskQueueName nm v \<notin> {pq, dq, getWatchedTaskQueueName nm v}"
    and "getWatchedTaskQueueName nm v \<notin> {pq, dq, getActiveTaskQueueName nm v}"
    and "pq \<notin> {getActiveTaskQueueName nm v, getWatchedTaskQueueName nm v}"
    and "dq \<notin> {getActiveTaskQueueName nm v, getWatchedTaskQueueName nm v}"
proof -
  from assms have 1: "getActiveTaskQueueName nm v \<notin> {pq, dq}"
    and 2: "getWatchedTaskQueueName nm v \<notin> {pq, dq}"
    and 3: "getActiveTaskQueueName nm v \<noteq> getWatchedTaskQueueName nm v"
    unfolding rolesDistinct_def by blast+
  from 1 3 show "getActiveTaskQueueName nm v \<notin> {pq, dq, getWatchedTaskQueueName nm v}"
    by simp
  from 2 3 show "getWatchedTaskQueueName nm v \<notin> {pq, dq, getActiveTaskQueueName nm v}"
    by simp
  from 1 2 show "pq \<notin> {getActiveTaskQueueName nm v, getWatchedTaskQueueName nm v}"
    by auto
  from 1 2 show "dq \<notin> {getActiveTaskQueueName nm v, getWatchedTaskQueueName nm v}"
    by auto
qed

lemma rolesDistinct_other:
  assumes "rolesDistinct nm pq dq X" "v \<in> set X" "w \<in> set X" "v \<noteq> w"
  shows "getActiveTaskQueueName nm w \<notin>
           {getActiveTaskQueueName nm v, getWatchedTaskQueueName nm v, pq, dq}"
    and "getWatchedTaskQueueName nm w \<notin>
           {getActiveTaskQueueName nm v, getWatchedTaskQueueName nm v, pq, dq}"
proof -
  from assms(1,2) have 1: "getActiveTaskQueueName nm v \<notin> {pq, dq}"
    and 2: "getWatchedTaskQueueName nm v \<notin> {pq, dq}"
    unfolding rolesDistinct_def by blast+
  from assms(1,3) have 3: "getActiveTaskQueueName nm w \<notin> {pq, dq}"
    and 4: "getWatchedTaskQueueName nm w \<notin> {pq, dq}"
    unfolding rolesDistinct_def by blast+
  from assms have 5: "getActiveTaskQueueName nm v \<noteq> getActiveTaskQueueName nm w"
    and 6: "getWatchedTaskQueueName nm v \<noteq> getWatchedTaskQueueName nm w"
    and 7: "getActiveTaskQueueName nm v \<noteq> getWatchedTaskQueueName nm w"
    unfolding rolesDistinct_def by blast+
  from assms have 8: "getActiveTaskQueueName nm w \<noteq> getWatchedTaskQueueName nm v"
    unfolding rolesDistinct_def by blast
  from 3 5 8 show "getActiveTaskQueueName nm w \<notin>
           {getActiveTaskQueueName nm v, getWatchedTaskQueueName nm v, pq, dq}"
    by auto
  from 4 6 7 show "getWatchedTaskQueueName nm w \<notin>
           {getActiveTaskQueueName nm v, getWatchedTaskQueueName nm v, pq, dq}"
    by auto
qed

lemma te_keeps:
  assumes rd: "rolesDistinct nm pq dq X" and v: "v \<in> set X" and w: "w \<in> set X"
  shows "keeps nm pq dq ws w d
           (turnEffect (getActiveTaskQueueName nm v) pq (getWatchedTaskQueueName nm v) dq
              ws v j1 j2 rm d)"
proof -
  let ?a = "getActiveTaskQueueName nm v" and ?b = "getWatchedTaskQueueName nm v"
  let ?d' = "turnEffect ?a pq ?b dq ws v j1 j2 rm d"
  note s = rolesDistinct_same[OF rd v]
  have pq: "set (drop j1 (lists d ?a)) \<union> set (lists d pq) \<subseteq> set (lists ?d' pq)"
    by (rule te_pq[OF s(3)])
  have dq: "set (drop j2 (lists d ?b)) \<union> set (lists d dq) \<subseteq> set (lists ?d' dq)"
    using s by (intro te_dq) auto
  have sets: "set (sets ?d' ws) \<subseteq> set (sets d ws)" by (auto simp add: te_sets)
  show ?thesis
  proof (cases "v = w")
    case True
    have a: "lists ?d' ?a = take j1 (lists d ?a)" by (rule te_a[OF s(1)])
    have b: "lists ?d' ?b = take j2 (lists d ?b)" by (rule te_b[OF s(2)])
    have "set (lists d ?a) \<union> set (lists d pq) \<subseteq> set (lists ?d' ?a) \<union> set (lists ?d' pq)"
      using pq set_take_un_drop[of "lists d ?a" j1] unfolding a by blast
    moreover
    have "set (lists d ?b) \<union> set (lists d dq) \<subseteq> set (lists ?d' ?b) \<union> set (lists ?d' dq)"
      using dq set_take_un_drop[of "lists d ?b" j2] unfolding b by blast
    ultimately show ?thesis
      using sets a b unfolding keeps_def True[symmetric] by simp
  next
    case False
    note o = rolesDistinct_other[OF rd v w False]
    have a: "lists ?d' (getActiveTaskQueueName nm w) = lists d (getActiveTaskQueueName nm w)"
      by (rule te_other[OF o(1)])
    have b: "lists ?d' (getWatchedTaskQueueName nm w) = lists d (getWatchedTaskQueueName nm w)"
      by (rule te_other[OF o(2)])
    show ?thesis
      using sets pq dq unfolding keeps_def a b by auto
  qed
qed

lemma te_done:
  assumes rd: "rolesDistinct nm pq dq X" and w: "w \<in> set X"
  shows "lists (turnEffect (getActiveTaskQueueName nm w) pq (getWatchedTaskQueueName nm w) dq
                  ws w 0 0 True d) (getActiveTaskQueueName nm w) = []"
    and "lists (turnEffect (getActiveTaskQueueName nm w) pq (getWatchedTaskQueueName nm w) dq
                  ws w 0 0 True d) (getWatchedTaskQueueName nm w) = []"
    and "w \<notin> set (sets (turnEffect (getActiveTaskQueueName nm w) pq
                  (getWatchedTaskQueueName nm w) dq ws w 0 0 True d) ws)"
  using rolesDistinct_same[OF rd w]
  by (simp_all add: te_a te_b te_sets)



lemma cleanWorkers_Cons_turn:
  assumes "cleanTurn ev nm ws pq dq v st = Some (fl, st1)"
  shows "cleanWorkers ev nm ws pq dq (v # xs) st =
           (case fl of Again \<Rightarrow> cleanWorkers ev nm ws pq dq xs st1
                     | Return r \<Rightarrow> Some (r, st1))"
  using assms by (simp split: flow.splits)

lemma sweep_keeps:
  assumes rd: "rolesDistinct nm pq dq X" and w: "w \<in> set X"
  shows "set xs \<subseteq> set X \<Longrightarrow> cleanWorkers ev nm ws pq dq xs st = Some (r, st') \<Longrightarrow>
         keeps nm pq dq ws w (db st) (db st')
       \<and> (r = None \<and> w \<in> set xs \<and> keys (db st) (getHeartbeatKey nm w) = None \<longrightarrow>
            lists (db st') (getActiveTaskQueueName nm w) = []
          \<and> lists (db st') (getWatchedTaskQueueName nm w) = []
          \<and> w \<notin> set (sets (db st') ws))"
proof (induction xs arbitrary: st)
  case Nil
  then show ?case by (simp add: keeps_refl)
next
  case (Cons v xs)
  let ?a = "getActiveTaskQueueName nm v" and ?b = "getWatchedTaskQueueName nm v"
  from Cons.prems(1) have v: "v \<in> set X" and sub: "set xs \<subseteq> set X" by auto
  from rolesDistinct_same[OF rd v] have ne: "?a \<noteq> pq" "?b \<noteq> dq" by auto
  from turn_shape[OF ne, where ev=ev and ws=ws and st=st] obtain fl st1 j1 j2 rm where
    t: "cleanTurn ev nm ws pq dq v st = Some (fl, st1)"
    and d: "db st1 = turnEffect ?a pq ?b dq ws v j1 j2 rm (db st)"
    and rm: "rm \<longrightarrow> j1 = 0 \<and> j2 = 0 \<and> keys (db st) (getHeartbeatKey nm v) = None"
    and ag: "fl = Again \<and> keys (db st) (getHeartbeatKey nm v) = None \<longrightarrow> rm"
    and nn: "fl \<noteq> Return None"
    by blast
  have k1: "keeps nm pq dq ws w (db st) (db st1)"
    unfolding d by (rule te_keeps[OF rd v w])
  note run = Cons.prems(2)[unfolded cleanWorkers_Cons_turn[OF t]]
  show ?case
  proof (cases fl)
    case (Return r')
    with run nn have "r \<noteq> None" "st' = st1" by auto
    with k1 show ?thesis by auto
  next
    case Again
    with run have run': "cleanWorkers ev nm ws pq dq xs st1 = Some (r, st')" by simp
    note ih = Cons.IH[OF sub run']
    from ih have k2: "keeps nm pq dq ws w (db st1) (db st')" by blast
    have k: "keeps nm pq dq ws w (db st) (db st')" by (rule keeps_trans[OF k1 k2])
    have fin: "lists (db st') (getActiveTaskQueueName nm w) = []
          \<and> lists (db st') (getWatchedTaskQueueName nm w) = []
          \<and> w \<notin> set (sets (db st') ws)"
      if r: "r = None" and m: "w \<in> set (v # xs)"
        and dead: "keys (db st) (getHeartbeatKey nm w) = None"
    proof (cases "v = w")
      case True
      with ag Again dead rm have "rm" "j1 = 0" "j2 = 0" by auto
      with d True have d1: "db st1 = turnEffect (getActiveTaskQueueName nm w) pq
          (getWatchedTaskQueueName nm w) dq ws w 0 0 True (db st)" by simp
      note e = te_done[OF rd w, of ws "db st", folded d1]
      from k2 e show ?thesis unfolding keeps_def by blast
    next
      case False
      with m have "w \<in> set xs" by simp
      moreover from k1 dead have "keys (db st1) (getHeartbeatKey nm w) = None"
        unfolding keeps_def by simp
      ultimately show ?thesis using ih r by blast
    qed
    show ?thesis
    proof (intro conjI impI)
      show "keeps nm pq dq ws w (db st) (db st')" by (rule k)
    qed (rule fin[THEN conjunct1] fin[THEN conjunct2, THEN conjunct1]
              fin[THEN conjunct2, THEN conjunct2]; (elim conjE)?; assumption)+
  qed
qed

text \<open>
  Claim C1. The naming keeps the roles apart on the worker set. For a worker of the set
  with no heartbeat key, a call of \<open>defaultClean\<close> that returns nil leaves every task
  of the worker's active queue in the pending queue and every task of its watched queue in
  the deferred queue, leaves both queues of the worker empty, and leaves the worker out of
  the worker set.
\<close>

theorem dead_worker_reclaimed:
  assumes rd: "rolesDistinct nm pq dq (sets (db st) ws)"
      and w: "w \<in> set (sets (db st) ws)"
      and dead: "keys (db st) (getHeartbeatKey nm w) = None"
      and run: "defaultClean ev nm ws pq dq st = Some (None, st')"
  shows "set (lists (db st) (getActiveTaskQueueName nm w)) \<subseteq> set (lists (db st') pq)
       \<and> set (lists (db st) (getWatchedTaskQueueName nm w)) \<subseteq> set (lists (db st') dq)
       \<and> lists (db st') (getActiveTaskQueueName nm w) = []
       \<and> lists (db st') (getWatchedTaskQueueName nm w) = []
       \<and> w \<notin> set (sets (db st') ws)"
proof -
  from run have f: "fault ev (clock st) = None"
    by (auto simp add: defaultClean_def SMembers_def split: option.splits)
  with run have sw: "cleanWorkers ev nm ws pq dq (sets (db st) ws) (tick st) = Some (None, st')"
    by (simp add: defaultClean_def SMembers_def)
  from sweep_keeps[OF rd w subset_refl sw] w dead
  have k: "keeps nm pq dq ws w (db st) (db st')"
    and e: "lists (db st') (getActiveTaskQueueName nm w) = []"
           "lists (db st') (getWatchedTaskQueueName nm w) = []"
    and n: "w \<notin> set (sets (db st') ws)" by simp_all
  from k e have "set (lists (db st) (getActiveTaskQueueName nm w)) \<subseteq> set (lists (db st') pq)"
    "set (lists (db st) (getWatchedTaskQueueName nm w)) \<subseteq> set (lists (db st') dq)"
    unfolding keeps_def by auto
  with e n show ?thesis by simp
qed

lemma quiet_quietEnv [simp]: "quiet quietEnv"
  by (simp add: quiet_def quietEnv_def)

lemma exRun:
  "\<exists>st'. defaultClean quietEnv exNaming ''ws'' ''pq'' ''dq'' exState = Some (None, st')
     \<and> lists (db st') ''pq'' = [''t1'', ''t2'', ''t0'']
     \<and> lists (db st') ''dq'' = [''t3'']
     \<and> lists (db st') ''a:w1'' = [] \<and> lists (db st') ''w:w1'' = []
     \<and> sets (db st') ''ws'' = [''w2'']"
  by (simp add: defaultClean_def SMembers_def exState_def exNaming_def
        cleanTurn_dead cleanTurn_alive drain_quiet_eq drained_def checkpoint_def)

theorem dead_worker_reclaimed_witness:
  "rolesDistinct exNaming ''pq'' ''dq'' (sets (db exState) ''ws'')
   \<and> ''w1'' \<in> set (sets (db exState) ''ws'')
   \<and> keys (db exState) (getHeartbeatKey exNaming ''w1'') = None
   \<and> lists (db exState) (getActiveTaskQueueName exNaming ''w1'') = [''t1'', ''t2'']
   \<and> lists (db exState) (getWatchedTaskQueueName exNaming ''w1'') = [''t3'']
   \<and> (\<exists>st'. defaultClean quietEnv exNaming ''ws'' ''pq'' ''dq'' exState = Some (None, st')
         \<and> set [''t1'', ''t2''] \<subseteq> set (lists (db st') ''pq'')
         \<and> set [''t3''] \<subseteq> set (lists (db st') ''dq'')
         \<and> lists (db st') (getActiveTaskQueueName exNaming ''w1'') = []
         \<and> lists (db st') (getWatchedTaskQueueName exNaming ''w1'') = []
         \<and> ''w1'' \<notin> set (sets (db st') ''ws''))"
proof -
  have rd: "rolesDistinct exNaming ''pq'' ''dq'' (sets (db exState) ''ws'')"
    by (simp add: rolesDistinct_def exNaming_def exState_def)
  have w: "''w1'' \<in> set (sets (db exState) ''ws'')" by (simp add: exState_def)
  have dead: "keys (db exState) (getHeartbeatKey exNaming ''w1'') = None"
    by (simp add: exState_def exNaming_def)
  have a: "lists (db exState) (getActiveTaskQueueName exNaming ''w1'') = [''t1'', ''t2'']"
    and b: "lists (db exState) (getWatchedTaskQueueName exNaming ''w1'') = [''t3'']"
    by (simp_all add: exState_def exNaming_def)
  from exRun obtain st' where
    run: "defaultClean quietEnv exNaming ''ws'' ''pq'' ''dq'' exState = Some (None, st')"
    by blast
  from dead_worker_reclaimed[OF rd w dead run] a b
  have "set [''t1'', ''t2''] \<subseteq> set (lists (db st') ''pq'')
         \<and> set [''t3''] \<subseteq> set (lists (db st') ''dq'')
         \<and> lists (db st') (getActiveTaskQueueName exNaming ''w1'') = []
         \<and> lists (db st') (getWatchedTaskQueueName exNaming ''w1'') = []
         \<and> ''w1'' \<notin> set (sets (db st') ''ws'')" by simp
  with run rd w dead a b show ?thesis by blast
qed

lemma drain_frame:
  assumes "defaultCleanWorkerQueue ev w src dst st = Some (r, st')"
  shows "sets (db st') = sets (db st)" "keys (db st') = keys (db st)" "clock st \<le> clock st'"
  using drain_moves[OF assms] by auto

lemma turn_frame:
  assumes "cleanTurn ev nm ws pq dq v st = Some (fl, st1)"
  shows "keys (db st1) = keys (db st)
       \<and> set (sets (db st1) ws) \<subseteq> set (sets (db st) ws)
       \<and> (fl = Again \<and> keys (db st) (getHeartbeatKey nm v) = None \<longrightarrow>
            v \<notin> set (sets (db st1) ws))
       \<and> fl \<noteq> Return None"
proof (cases "fault ev (clock st)")
  case (Some m)
  with assms show ?thesis by (auto simp add: cleanTurn_fault)
next
  case None
  show ?thesis
  proof (cases "keys (db st) (getHeartbeatKey nm v)")
    case (Some val)
    with assms None show ?thesis by (auto simp add: cleanTurn_alive)
  next
    case dead: None
    note run = assms[unfolded cleanTurn_dead[OF None dead]]
    then obtain r1 st2 where
      r1: "defaultCleanWorkerQueue ev v (getActiveTaskQueueName nm v) pq (tick st) =
             Some (r1, st2)"
      by (cases "defaultCleanWorkerQueue ev v (getActiveTaskQueueName nm v) pq (tick st)")
         auto
    from drain_frame[OF r1] have f1: "sets (db st2) = sets (db st)"
      "keys (db st2) = keys (db st)" by simp_all
    show ?thesis
    proof (cases r1)
      case (Some e1)
      with run r1 f1 show ?thesis by auto
    next
      case n1: None
      with run r1 obtain r2 st3 where
        r2: "defaultCleanWorkerQueue ev v (getWatchedTaskQueueName nm v) dq st2 =
               Some (r2, st3)"
        by (cases "defaultCleanWorkerQueue ev v (getWatchedTaskQueueName nm v) dq st2")
           auto
      from drain_frame[OF r2] f1 have f2: "sets (db st3) = sets (db st)"
        "keys (db st3) = keys (db st)" by simp_all
      show ?thesis
      proof (cases r2)
        case (Some e2)
        with run r1 n1 r2 f2 show ?thesis by auto
      next
        case n2: None
        with run r1 n1 r2 f2 show ?thesis
          by (cases "fault ev (clock st3)") auto
      qed
    qed
  qed
qed

lemma cleanWorkers_append:
  "cleanWorkers ev nm ws pq dq (xs @ ys) st =
     (case cleanWorkers ev nm ws pq dq xs st of
        None \<Rightarrow> None
      | Some (Some e, st') \<Rightarrow> Some (Some e, st')
      | Some (None, st') \<Rightarrow> cleanWorkers ev nm ws pq dq ys st')"
proof (induction xs arbitrary: st)
  case Nil
  show ?case by simp
next
  case (Cons v xs)
  show ?case
  proof (cases "cleanTurn ev nm ws pq dq v st")
    case None
    then show ?thesis by simp
  next
    case (Some p)
    obtain fl st1 where p: "p = (fl, st1)" by (cases p)
    from turn_frame[OF Some[unfolded p]] have "fl \<noteq> Return None" by simp
    then show ?thesis using Some p Cons.IH[of st1]
      by (cases fl) (auto split: option.splits)
  qed
qed

lemma sweep_removes_dead:
  "cleanWorkers ev nm ws pq dq xs st = Some (None, st') \<Longrightarrow>
     keys (db st') = keys (db st)
   \<and> set (sets (db st') ws) \<subseteq> set (sets (db st) ws)
   \<and> (\<forall>v \<in> set xs. keys (db st) (getHeartbeatKey nm v) = None \<longrightarrow>
         v \<notin> set (sets (db st') ws))"
proof (induction xs arbitrary: st)
  case Nil
  then show ?case by simp
next
  case (Cons v xs)
  from Cons.prems obtain fl st1 where t: "cleanTurn ev nm ws pq dq v st = Some (fl, st1)"
    by (cases "cleanTurn ev nm ws pq dq v st") auto
  note tf = turn_frame[OF t]
  from Cons.prems[unfolded cleanWorkers_Cons_turn[OF t]] tf
  have ag: "fl = Again" and run: "cleanWorkers ev nm ws pq dq xs st1 = Some (None, st')"
    by (cases fl; auto)+
  note ih = Cons.IH[OF run]
  from tf ih have k: "keys (db st') = keys (db st)"
    and s: "set (sets (db st') ws) \<subseteq> set (sets (db st) ws)" by auto
  have "u \<notin> set (sets (db st') ws)"
    if u: "u \<in> set (v # xs)" and d: "keys (db st) (getHeartbeatKey nm u) = None" for u
  proof (cases "u = v")
    case True
    with tf ag d have "v \<notin> set (sets (db st1) ws)" by simp
    with ih True show ?thesis by auto
  next
    case False
    with u have "u \<in> set xs" by simp
    moreover from tf d have "keys (db st1) (getHeartbeatKey nm u) = None" by simp
    ultimately show ?thesis using ih by blast
  qed
  with k s show ?case by blast
qed

lemma sweep_alive_all:
  "(\<forall>v \<in> set xs. keys (db st) (getHeartbeatKey nm v) \<noteq> None) \<Longrightarrow>
     \<exists>r st'. cleanWorkers ev nm ws pq dq xs st = Some (r, st') \<and> db st' = db st
            \<and> (quiet ev \<longrightarrow> r = None)"
proof (induction xs arbitrary: st)
  case Nil
  show ?case by simp
next
  case (Cons v xs)
  from Cons.prems obtain val where al: "keys (db st) (getHeartbeatKey nm v) = Some val"
    by auto
  show ?case
  proof (cases "fault ev (clock st)")
    case (Some m)
    have "cleanWorkers ev nm ws pq dq (v # xs) st =
            Some (Some (ErrCheckingHealth v (StoreFault m)), tick st)"
      unfolding cleanWorkers_Cons_turn[OF cleanTurn_fault[OF Some]] by simp
    moreover have "\<not> quiet ev" using Some by (auto simp add: quiet_def)
    ultimately show ?thesis by simp
  next
    case None
    note eq = cleanWorkers_Cons_turn[OF cleanTurn_alive[OF None al], of ws pq dq xs]
    show ?thesis
    proof (cases "ctxDone ev (tick st)")
      case True
      then have "cleanWorkers ev nm ws pq dq (v # xs) st = Some (Some Canceled, tick st)"
        unfolding eq by (simp add: checkpoint_def)
      moreover have "\<not> quiet ev" using True quiet_ctxDone by blast
      ultimately show ?thesis by simp
    next
      case False
      then have e: "cleanWorkers ev nm ws pq dq (v # xs) st =
                   cleanWorkers ev nm ws pq dq xs (tick st)"
        unfolding eq by (simp add: checkpoint_def)
      from Cons.prems have "\<forall>v \<in> set xs. keys (db (tick st)) (getHeartbeatKey nm v) \<noteq> None"
        by simp
      from Cons.IH[OF this] show ?thesis unfolding e by simp
    qed
  qed
qed

lemma sweep_alive_frame:
  assumes rd: "rolesDistinct nm pq dq X" and w: "w \<in> set X"
  shows "set xs \<subseteq> set X \<Longrightarrow> keys (db st) (getHeartbeatKey nm w) \<noteq> None \<Longrightarrow>
     \<exists>r st'. cleanWorkers ev nm ws pq dq xs st = Some (r, st')
       \<and> lists (db st') (getActiveTaskQueueName nm w) = lists (db st) (getActiveTaskQueueName nm w)
       \<and> lists (db st') (getWatchedTaskQueueName nm w)
           = lists (db st) (getWatchedTaskQueueName nm w)
       \<and> (w \<in> set (sets (db st') ws)) = (w \<in> set (sets (db st) ws))"
proof (induction xs arbitrary: st)
  case Nil
  show ?case by simp
next
  case (Cons v xs)
  let ?a = "getActiveTaskQueueName nm v" and ?b = "getWatchedTaskQueueName nm v"
  let ?A = "getActiveTaskQueueName nm w" and ?B = "getWatchedTaskQueueName nm w"
  from Cons.prems(1) have v: "v \<in> set X" and sub: "set xs \<subseteq> set X" by auto
  from rolesDistinct_same[OF rd v] have ne: "?a \<noteq> pq" "?b \<noteq> dq" by auto
  from turn_shape[OF ne, where ev=ev and ws=ws and st=st] obtain fl st1 j1 j2 rm where
    t: "cleanTurn ev nm ws pq dq v st = Some (fl, st1)"
    and d: "db st1 = turnEffect ?a pq ?b dq ws v j1 j2 rm (db st)"
    and rm: "rm \<longrightarrow> j1 = 0 \<and> j2 = 0 \<and> keys (db st) (getHeartbeatKey nm v) = None"
    and al: "keys (db st) (getHeartbeatKey nm v) \<noteq> None \<longrightarrow> db st1 = db st"
    by blast
  have k: "keys (db st1) = keys (db st)" by (simp add: d)
  have fr: "lists (db st1) ?A = lists (db st) ?A \<and> lists (db st1) ?B = lists (db st) ?B
          \<and> (w \<in> set (sets (db st1) ws)) = (w \<in> set (sets (db st) ws))"
  proof (cases "keys (db st) (getHeartbeatKey nm v)")
    case (Some val)
    with al show ?thesis by simp
  next
    case None
    with Cons.prems(2) have neq: "v \<noteq> w" by auto
    note o = rolesDistinct_other[OF rd v w neq]
    from neq show ?thesis
      by (simp add: d te_other[OF o(1)] te_other[OF o(2)] te_sets)
  qed
  note eq = cleanWorkers_Cons_turn[OF t, of xs]
  show ?case
  proof (cases fl)
    case (Return r')
    then have "cleanWorkers ev nm ws pq dq (v # xs) st = Some (r', st1)"
      unfolding eq by simp
    with fr show ?thesis by simp
  next
    case Again
    then have e: "cleanWorkers ev nm ws pq dq (v # xs) st = cleanWorkers ev nm ws pq dq xs st1"
      unfolding eq by simp
    from Cons.prems(2) k have "keys (db st1) (getHeartbeatKey nm w) \<noteq> None" by simp
    from Cons.IH[OF sub this] fr show ?thesis unfolding e by simp
  qed
qed

text \<open>
  Claim C3. The naming keeps the roles apart on the worker set. For a worker of the set
  with a heartbeat key, every call of \<open>defaultClean\<close> returns (with nil, an error or
  the cancellation) and leaves the worker's active queue and watched queue as they were,
  whatever they hold, and the worker in the worker set.
\<close>

theorem live_worker_untouched:
  assumes rd: "rolesDistinct nm pq dq (sets (db st) ws)"
      and w: "w \<in> set (sets (db st) ws)"
      and alive: "keys (db st) (getHeartbeatKey nm w) \<noteq> None"
  shows "\<exists>r st'. defaultClean ev nm ws pq dq st = Some (r, st')
       \<and> lists (db st') (getActiveTaskQueueName nm w) = lists (db st) (getActiveTaskQueueName nm w)
       \<and> lists (db st') (getWatchedTaskQueueName nm w)
           = lists (db st) (getWatchedTaskQueueName nm w)
       \<and> w \<in> set (sets (db st') ws)"
proof (cases "fault ev (clock st)")
  case (Some m)
  then have "defaultClean ev nm ws pq dq st =
               Some (Some (ErrRetrievingWorkers (StoreFault m)), tick st)"
    by (simp add: defaultClean_def SMembers_def)
  with w show ?thesis by simp
next
  case None
  then have e: "defaultClean ev nm ws pq dq st =
               cleanWorkers ev nm ws pq dq (sets (db st) ws) (tick st)"
    by (simp add: defaultClean_def SMembers_def)
  from alive have "keys (db (tick st)) (getHeartbeatKey nm w) \<noteq> None" by simp
  from sweep_alive_frame[OF rd w subset_refl this, of ev ws] w
  show ?thesis unfolding e by simp
qed

theorem live_worker_untouched_witness:
  "rolesDistinct exNaming ''pq'' ''dq'' (sets (db exState) ''ws'')
   \<and> ''w2'' \<in> set (sets (db exState) ''ws'')
   \<and> keys (db exState) (getHeartbeatKey exNaming ''w2'') \<noteq> None
   \<and> (\<exists>r st'. defaultClean quietEnv exNaming ''ws'' ''pq'' ''dq'' exState = Some (r, st')
        \<and> lists (db st') (getActiveTaskQueueName exNaming ''w2'') = [''t4'']
        \<and> lists (db st') (getWatchedTaskQueueName exNaming ''w2'') = []
        \<and> ''w2'' \<in> set (sets (db st') ''ws''))"
proof -
  have rd: "rolesDistinct exNaming ''pq'' ''dq'' (sets (db exState) ''ws'')"
    by (simp add: rolesDistinct_def exNaming_def exState_def)
  have w: "''w2'' \<in> set (sets (db exState) ''ws'')" by (simp add: exState_def)
  have al: "keys (db exState) (getHeartbeatKey exNaming ''w2'') \<noteq> None"
    by (simp add: exState_def exNaming_def)
  have q: "lists (db exState) (getActiveTaskQueueName exNaming ''w2'') = [''t4'']"
    "lists (db exState) (getWatchedTaskQueueName exNaming ''w2'') = []"
    by (simp_all add: exState_def exNaming_def)
  from live_worker_untouched[OF rd w al, of quietEnv] rd w al
  show ?thesis unfolding q by simp
qed

text \<open>
  Claim C5. After a call of \<open>defaultClean\<close> that returns nil, a second call on the
  store it left, in any environment and at any time, returns and leaves the store as the
  first call left it; it returns nil when no store call fails and the context is not done.
\<close>

theorem second_clean_changes_nothing:
  assumes "defaultClean ev nm ws pq dq st = Some (None, st1)"
  shows "\<exists>r st2. defaultClean ev' nm ws pq dq (st1\<lparr>clock := c\<rparr>) = Some (r, st2)
           \<and> db st2 = db st1 \<and> (quiet ev' \<longrightarrow> r = None)"
proof -
  from assms have f: "fault ev (clock st) = None"
    by (auto simp add: defaultClean_def SMembers_def split: option.splits)
  with assms have sw: "cleanWorkers ev nm ws pq dq (sets (db st) ws) (tick st) = Some (None, st1)"
    by (simp add: defaultClean_def SMembers_def)
  from sweep_removes_dead[OF sw]
  have al: "\<forall>v \<in> set (sets (db st1) ws). keys (db st1) (getHeartbeatKey nm v) \<noteq> None"
    by auto
  let ?s = "st1\<lparr>clock := c\<rparr>"
  show ?thesis
  proof (cases "fault ev' c")
    case (Some m)
    then have "defaultClean ev' nm ws pq dq ?s =
                 Some (Some (ErrRetrievingWorkers (StoreFault m)), tick ?s)"
      by (simp add: defaultClean_def SMembers_def)
    moreover have "\<not> quiet ev'" using Some by (auto simp add: quiet_def)
    ultimately show ?thesis by simp
  next
    case None
    then have e: "defaultClean ev' nm ws pq dq ?s =
                 cleanWorkers ev' nm ws pq dq (sets (db st1) ws) (tick ?s)"
      by (simp add: defaultClean_def SMembers_def)
    from al have "\<forall>v \<in> set (sets (db st1) ws).
        keys (db (tick ?s)) (getHeartbeatKey nm v) \<noteq> None" by simp
    from sweep_alive_all[OF this, of ev' ws pq dq] show ?thesis unfolding e by simp
  qed
qed

theorem second_clean_changes_nothing_witness:
  "\<exists>st1. defaultClean quietEnv exNaming ''ws'' ''pq'' ''dq'' exState = Some (None, st1)
     \<and> quiet quietEnv
     \<and> (\<exists>st2. defaultClean quietEnv exNaming ''ws'' ''pq'' ''dq'' (st1\<lparr>clock := clock st1\<rparr>)
                 = Some (None, st2) \<and> db st2 = db st1)"
proof -
  from exRun obtain st1 where
    run: "defaultClean quietEnv exNaming ''ws'' ''pq'' ''dq'' exState = Some (None, st1)"
    by blast
  from second_clean_changes_nothing[OF run, of quietEnv "clock st1"] run
  show ?thesis by auto
qed

text \<open>
  Claim C4. When the GET of a worker's heartbeat key fails with an error other than
  \<open>redis.Nil\<close>, the loop returns the health-check error that carries it, at once: the
  store is as it was before the GET, one store call later, so no queue was drained and no
  worker removed for that worker, and the workers after it are not visited. The same holds
  after any workers visited before it, and of \<open>defaultClean\<close> as a whole.
\<close>

theorem heartbeat_fault_aborts_sweep:
  assumes "fault ev (clock st) = Some m"
  shows "cleanWorkers ev nm ws pq dq (w # rest) st =
           Some (Some (ErrCheckingHealth w (StoreFault m)), tick st)
       \<and> db (tick st) = db st \<and> clock (tick st) = Suc (clock st)
       \<and> (\<forall>pre st0. cleanWorkers ev nm ws pq dq pre st0 = Some (None, st) \<longrightarrow>
             cleanWorkers ev nm ws pq dq (pre @ w # rest) st0 =
               Some (Some (ErrCheckingHealth w (StoreFault m)), tick st))
       \<and> (\<forall>pre st0. fault ev (clock st0) = None \<and> sets (db st0) ws = pre @ w # rest
             \<and> cleanWorkers ev nm ws pq dq pre (tick st0) = Some (None, st) \<longrightarrow>
             defaultClean ev nm ws pq dq st0 =
               Some (Some (ErrCheckingHealth w (StoreFault m)), tick st))"
proof -
  have one: "cleanWorkers ev nm ws pq dq (w # rest) st =
           Some (Some (ErrCheckingHealth w (StoreFault m)), tick st)"
    unfolding cleanWorkers_Cons_turn[OF cleanTurn_fault[OF assms]] by simp
  have pre: "cleanWorkers ev nm ws pq dq (pre @ w # rest) st0 =
               Some (Some (ErrCheckingHealth w (StoreFault m)), tick st)"
    if "cleanWorkers ev nm ws pq dq pre st0 = Some (None, st)" for pre st0
    using that one by (simp add: cleanWorkers_append del: cleanWorkers.simps)
  have dc: "defaultClean ev nm ws pq dq st0 =
               Some (Some (ErrCheckingHealth w (StoreFault m)), tick st)"
    if "fault ev (clock st0) = None \<and> sets (db st0) ws = pre @ w # rest
             \<and> cleanWorkers ev nm ws pq dq pre (tick st0) = Some (None, st)" for pre st0
    using that pre[of pre "tick st0"] by (simp add: defaultClean_def SMembers_def)
  have g: "db (tick st) = db st" "clock (tick st) = Suc (clock st)" by simp_all
  show ?thesis
    by (intro conjI allI impI) (rule one g pre dc; assumption?)+
qed

theorem heartbeat_fault_aborts_sweep_witness:
  "fault (faultyEnv 1) (clock (tick exState)) = Some ''down''
   \<and> cleanWorkers (faultyEnv 1) exNaming ''ws'' ''pq'' ''dq'' [''w2''] exState
       = Some (None, tick exState)
   \<and> cleanWorkers (faultyEnv 1) exNaming ''ws'' ''pq'' ''dq'' ([''w2''] @ ''w1'' # [''w3''])
        exState
       = Some (Some (ErrCheckingHealth ''w1'' (StoreFault ''down'')), tick (tick exState))
   \<and> fault (faultyEnv 1) (clock exState) = None
   \<and> sets (db exState) ''ws'' = [] @ ''w1'' # [''w2'']
   \<and> defaultClean (faultyEnv 1) exNaming ''ws'' ''pq'' ''dq'' exState
       = Some (Some (ErrCheckingHealth ''w1'' (StoreFault ''down'')), tick (tick exState))
   \<and> db (tick (tick exState)) = db exState"
proof -
  have f: "fault (faultyEnv 1) (clock (tick exState)) = Some ''down''"
    by (simp add: faultyEnv_def exState_def)
  have f0: "fault (faultyEnv 1) (clock exState) = None"
    by (simp add: faultyEnv_def exState_def)
  have al: "keys (db exState) (getHeartbeatKey exNaming ''w2'') = Some ''up''"
    by (simp add: exState_def exNaming_def)
  have p: "cleanWorkers (faultyEnv 1) exNaming ''ws'' ''pq'' ''dq'' [''w2''] exState
       = Some (None, tick exState)"
    unfolding cleanWorkers_Cons_turn[OF cleanTurn_alive[OF f0 al]]
    by (simp add: checkpoint_def ctxDone_def faultyEnv_def)
  have s: "sets (db exState) ''ws'' = [] @ ''w1'' # [''w2'']" by (simp add: exState_def)
  have e: "cleanWorkers (faultyEnv 1) exNaming ''ws'' ''pq'' ''dq'' [] (tick exState)
       = Some (None, tick exState)" by simp
  note t = heartbeat_fault_aborts_sweep[OF f, of exNaming "''ws''" "''pq''" "''dq''" "''w1''"]
  from t[of "[''w3'']"] p
  have 1: "cleanWorkers (faultyEnv 1) exNaming ''ws'' ''pq'' ''dq'' ([''w2''] @ ''w1'' # [''w3''])
        exState
       = Some (Some (ErrCheckingHealth ''w1'' (StoreFault ''down'')), tick (tick exState))"
    by blast
  from t[of "[''w2'']"] f0 s e
  have 2: "defaultClean (faultyEnv 1) exNaming ''ws'' ''pq'' ''dq'' exState
       = Some (Some (ErrCheckingHealth ''w1'' (StoreFault ''down'')), tick (tick exState))"
    by blast
  from f p 1 f0 s 2 show ?thesis by simp
qed


text \<open>
  Claim C7. For a worker found dead (the GET of its heartbeat key answers
  \<open>redis.Nil\<close>): if the drain of its active queue returns an error, the loop returns
  that error and the worker set is as it was; if that drain returns nil and the drain of
  the watched queue returns an error, the same; if both return nil, the worker set is still
  as it was when SREM is issued, SREM answers with the number of members removed (0 for a
  worker that was not in the set, which is not an error), the worker is out of the set, and
  the loop goes on to the checkpoint and the next worker.
\<close>

theorem removal_follows_both_drains:
  assumes "fault ev (clock st) = None" "keys (db st) (getHeartbeatKey nm w) = None"
  shows "(\<forall>e st2.
            cleanActiveTaskQueue ev w (getActiveTaskQueueName nm w) pq (tick st)
              = Some (Some e, st2) \<longrightarrow>
            cleanWorkers ev nm ws pq dq (w # rest) st = Some (Some e, st2)
          \<and> sets (db st2) = sets (db st))
       \<and> (\<forall>st2 e st3.
            cleanActiveTaskQueue ev w (getActiveTaskQueueName nm w) pq (tick st)
              = Some (None, st2)
          \<and> cleanWatchedTaskQueue ev w (getWatchedTaskQueueName nm w) dq st2
              = Some (Some e, st3) \<longrightarrow>
            cleanWorkers ev nm ws pq dq (w # rest) st = Some (Some e, st3)
          \<and> sets (db st3) = sets (db st))
       \<and> (\<forall>st2 st3.
            cleanActiveTaskQueue ev w (getActiveTaskQueueName nm w) pq (tick st)
              = Some (None, st2)
          \<and> cleanWatchedTaskQueue ev w (getWatchedTaskQueueName nm w) dq st2
              = Some (None, st3)
          \<and> fault ev (clock st3) = None \<longrightarrow>
            sets (db st3) = sets (db st)
          \<and> fst (SRem ev ws w st3) = Inr (if w \<in> set (sets (db st) ws) then 1 else 0)
          \<and> w \<notin> set (sets (db (snd (SRem ev ws w st3))) ws)
          \<and> cleanWorkers ev nm ws pq dq (w # rest) st =
               (if ctxDone ev (snd (SRem ev ws w st3))
                then Some (Some Canceled, snd (SRem ev ws w st3))
                else cleanWorkers ev nm ws pq dq rest (snd (SRem ev ws w st3))))"
proof (intro conjI allI impI)
  fix e st2
  assume a: "cleanActiveTaskQueue ev w (getActiveTaskQueueName nm w) pq (tick st)
              = Some (Some e, st2)"
  then have a': "defaultCleanWorkerQueue ev w (getActiveTaskQueueName nm w) pq (tick st)
              = Some (Some e, st2)" by (simp add: cleanActiveTaskQueue_def)
  have "cleanTurn ev nm ws pq dq w st = Some (Return (Some e), st2)"
    unfolding cleanTurn_dead[OF assms] by (simp add: a')
  from cleanWorkers_Cons_turn[OF this]
  show "cleanWorkers ev nm ws pq dq (w # rest) st = Some (Some e, st2)" by simp
  from drain_frame(1)[OF a'] show "sets (db st2) = sets (db st)" by simp
next
  fix st2 e st3
  assume "cleanActiveTaskQueue ev w (getActiveTaskQueueName nm w) pq (tick st)
              = Some (None, st2)
          \<and> cleanWatchedTaskQueue ev w (getWatchedTaskQueueName nm w) dq st2
              = Some (Some e, st3)"
  then have a: "defaultCleanWorkerQueue ev w (getActiveTaskQueueName nm w) pq (tick st)
              = Some (None, st2)"
    and b: "defaultCleanWorkerQueue ev w (getWatchedTaskQueueName nm w) dq st2
              = Some (Some e, st3)"
    by (simp_all add: cleanActiveTaskQueue_def cleanWatchedTaskQueue_def)
  have "cleanTurn ev nm ws pq dq w st = Some (Return (Some e), st3)"
    unfolding cleanTurn_dead[OF assms] by (simp add: a b)
  from cleanWorkers_Cons_turn[OF this]
  show "cleanWorkers ev nm ws pq dq (w # rest) st = Some (Some e, st3)" by simp
  from drain_frame(1)[OF a] drain_frame(1)[OF b]
  show "sets (db st3) = sets (db st)" by simp
next
  fix st2 st3
  assume "cleanActiveTaskQueue ev w (getActiveTaskQueueName nm w) pq (tick st)
              = Some (None, st2)
          \<and> cleanWatchedTaskQueue ev w (getWatchedTaskQueueName nm w) dq st2
              = Some (None, st3)
          \<and> fault ev (clock st3) = None"
  then have a: "defaultCleanWorkerQueue ev w (getActiveTaskQueueName nm w) pq (tick st)
              = Some (None, st2)"
    and b: "defaultCleanWorkerQueue ev w (getWatchedTaskQueueName nm w) dq st2
              = Some (None, st3)"
    and f: "fault ev (clock st3) = None"
    by (simp_all add: cleanActiveTaskQueue_def cleanWatchedTaskQueue_def)
  from drain_frame(1)[OF a] drain_frame(1)[OF b]
  show s: "sets (db st3) = sets (db st)" by simp
  let ?st4 = "tick (setSets ((sets (db st3))(ws := removeAll w (sets (db st3) ws))) st3)"
  have r: "SRem ev ws w st3 = (Inr (if w \<in> set (sets (db st) ws) then 1 else 0), ?st4)"
    using f s by (simp add: SRem_def)
  show "fst (SRem ev ws w st3) = Inr (if w \<in> set (sets (db st) ws) then 1 else 0)"
    unfolding r by simp
  show "w \<notin> set (sets (db (snd (SRem ev ws w st3))) ws)" unfolding r by simp
  have "cleanTurn ev nm ws pq dq w st = Some (checkpoint ev (tick st3), ?st4)"
    unfolding cleanTurn_dead[OF assms] by (simp add: a b f)
  note cw = cleanWorkers_Cons_turn[OF this, of rest]
  have cd: "ctxDone ev ?st4 = ctxDone ev (tick st3)"
    by (simp add: ctxDone_def split: option.splits)
  show "cleanWorkers ev nm ws pq dq (w # rest) st =
               (if ctxDone ev (snd (SRem ev ws w st3))
                then Some (Some Canceled, snd (SRem ev ws w st3))
                else cleanWorkers ev nm ws pq dq rest (snd (SRem ev ws w st3)))"
    unfolding r cw by (simp add: checkpoint_def cd del: cleanWorkers.simps)
qed


lemma exDrainFault1:
  "defaultCleanWorkerQueue (faultyEnv 1) ''w1'' ''a:w1'' ''pq'' (tick exState) =
     Some (Some (ErrCleaningUp ''w1'' ''a:w1'' (StoreFault ''down'')), tick (tick exState))"
  by (subst defaultCleanWorkerQueue.simps)
     (simp add: drainTurn_cases ctxDone_def faultyEnv_def exState_def)

lemma exDrainFault4:
  "\<exists>st2 st3. defaultCleanWorkerQueue (faultyEnv 4) ''w1'' ''a:w1'' ''pq'' (tick exState) =
       Some (None, st2)
     \<and> defaultCleanWorkerQueue (faultyEnv 4) ''w1'' ''w:w1'' ''dq'' st2 =
       Some (Some (ErrCleaningUp ''w1'' ''w:w1'' (StoreFault ''down'')), st3)
     \<and> lists (db st3) ''pq'' = [''t1'', ''t2'', ''t0'']
     \<and> lists (db st3) ''w:w1'' = [''t3'']"
  by (simp add: defaultCleanWorkerQueue.simps drainTurn_cases ctxDone_def faultyEnv_def
        exState_def moveTask_def Let_def)

theorem removal_follows_both_drains_witness:
  "fault quietEnv (clock exState) = None
   \<and> fault (faultyEnv 1) (clock exState) = None
   \<and> fault (faultyEnv 4) (clock exState) = None
   \<and> keys (db exState) (getHeartbeatKey exNaming ''w1'') = None
   \<and> (\<exists>st2 st3.
         cleanActiveTaskQueue quietEnv ''w1'' (getActiveTaskQueueName exNaming ''w1'') ''pq''
           (tick exState) = Some (None, st2)
       \<and> cleanWatchedTaskQueue quietEnv ''w1'' (getWatchedTaskQueueName exNaming ''w1'') ''dq''
           st2 = Some (None, st3)
       \<and> fault quietEnv (clock st3) = None
       \<and> ''w1'' \<in> set (sets (db st3) ''ws'')
       \<and> ''w1'' \<notin> set (sets (db (snd (SRem quietEnv ''ws'' ''w1'' st3))) ''ws'')
       \<and> cleanWorkers quietEnv exNaming ''ws'' ''pq'' ''dq'' [''w1'', ''w2''] exState =
           cleanWorkers quietEnv exNaming ''ws'' ''pq'' ''dq'' [''w2'']
             (snd (SRem quietEnv ''ws'' ''w1'' st3)))
   \<and> (\<exists>e st2.
         cleanActiveTaskQueue (faultyEnv 1) ''w1'' (getActiveTaskQueueName exNaming ''w1'') ''pq''
           (tick exState) = Some (Some e, st2)
       \<and> cleanWorkers (faultyEnv 1) exNaming ''ws'' ''pq'' ''dq'' [''w1'', ''w2''] exState
           = Some (Some e, st2)
       \<and> ''w1'' \<in> set (sets (db st2) ''ws''))
   \<and> (\<exists>e st2 st3.
         cleanActiveTaskQueue (faultyEnv 4) ''w1'' (getActiveTaskQueueName exNaming ''w1'') ''pq''
           (tick exState) = Some (None, st2)
       \<and> cleanWatchedTaskQueue (faultyEnv 4) ''w1'' (getWatchedTaskQueueName exNaming ''w1'')
           ''dq'' st2 = Some (Some e, st3)
       \<and> cleanWorkers (faultyEnv 4) exNaming ''ws'' ''pq'' ''dq'' [''w1'', ''w2''] exState
           = Some (Some e, st3)
       \<and> ''w1'' \<in> set (sets (db st3) ''ws''))"
proof -
  have f: "fault quietEnv (clock exState) = None" "fault (faultyEnv 1) (clock exState) = None"
    "fault (faultyEnv 4) (clock exState) = None"
    by (simp_all add: quietEnv_def faultyEnv_def exState_def)
  have d: "keys (db exState) (getHeartbeatKey exNaming ''w1'') = None"
    by (simp add: exState_def exNaming_def)
  have n: "getActiveTaskQueueName exNaming ''w1'' = ''a:w1''"
    "getWatchedTaskQueueName exNaming ''w1'' = ''w:w1''" by (simp_all add: exNaming_def)
  have m: "''w1'' \<in> set (sets (db exState) ''ws'')" by (simp add: exState_def)
  note q = removal_follows_both_drains[OF f(1) d, where pq="''pq''" and dq="''dq''" and ws="''ws''" and rest="[''w2'']"]
  note a = removal_follows_both_drains[OF f(2) d, where pq="''pq''" and dq="''dq''" and ws="''ws''" and rest="[''w2'']"]
  note b = removal_follows_both_drains[OF f(3) d, where pq="''pq''" and dq="''dq''" and ws="''ws''" and rest="[''w2'']"]
  let ?st2 = "\<lparr>db = drained ''a:w1'' ''pq'' 0 (db (tick exState)),
              clock = clock (tick exState) + length (lists (db (tick exState)) ''a:w1'') + 1\<rparr>"
  let ?st3 = "\<lparr>db = drained ''w:w1'' ''dq'' 0 (db ?st2),
              clock = clock ?st2 + length (lists (db ?st2) ''w:w1'') + 1\<rparr>"
  have q1: "cleanActiveTaskQueue quietEnv ''w1'' (getActiveTaskQueueName exNaming ''w1'') ''pq''
           (tick exState) = Some (None, ?st2)"
    unfolding n cleanActiveTaskQueue_def by (rule drain_quiet_eq) simp_all
  have q2: "cleanWatchedTaskQueue quietEnv ''w1'' (getWatchedTaskQueueName exNaming ''w1'') ''dq''
           ?st2 = Some (None, ?st3)"
    unfolding n cleanWatchedTaskQueue_def by (rule drain_quiet_eq) simp_all
  have q3: "fault quietEnv (clock ?st3) = None" by (simp add: quietEnv_def)
  note qc = q[THEN conjunct2, THEN conjunct2, rule_format, OF conjI[OF q1 conjI[OF q2 q3]]]
  from qc m have
    "''w1'' \<in> set (sets (db ?st3) ''ws'')
       \<and> ''w1'' \<notin> set (sets (db (snd (SRem quietEnv ''ws'' ''w1'' ?st3))) ''ws'')
       \<and> cleanWorkers quietEnv exNaming ''ws'' ''pq'' ''dq'' [''w1'', ''w2''] exState =
           cleanWorkers quietEnv exNaming ''ws'' ''pq'' ''dq'' [''w2'']
             (snd (SRem quietEnv ''ws'' ''w1'' ?st3))"
    by (simp del: cleanWorkers.simps)
  with q1 q2 q3 have 1: "\<exists>st2 st3.
         cleanActiveTaskQueue quietEnv ''w1'' (getActiveTaskQueueName exNaming ''w1'') ''pq''
           (tick exState) = Some (None, st2)
       \<and> cleanWatchedTaskQueue quietEnv ''w1'' (getWatchedTaskQueueName exNaming ''w1'') ''dq''
           st2 = Some (None, st3)
       \<and> fault quietEnv (clock st3) = None
       \<and> ''w1'' \<in> set (sets (db st3) ''ws'')
       \<and> ''w1'' \<notin> set (sets (db (snd (SRem quietEnv ''ws'' ''w1'' st3))) ''ws'')
       \<and> cleanWorkers quietEnv exNaming ''ws'' ''pq'' ''dq'' [''w1'', ''w2''] exState =
           cleanWorkers quietEnv exNaming ''ws'' ''pq'' ''dq'' [''w2'']
             (snd (SRem quietEnv ''ws'' ''w1'' st3))"
    by blast
  have a1: "cleanActiveTaskQueue (faultyEnv 1) ''w1'' (getActiveTaskQueueName exNaming ''w1'')
      ''pq'' (tick exState) =
        Some (Some (ErrCleaningUp ''w1'' ''a:w1'' (StoreFault ''down'')), tick (tick exState))"
    unfolding n cleanActiveTaskQueue_def by (rule exDrainFault1)
  note ac = a[THEN conjunct1, rule_format, OF a1]
  from ac a1 m have 2: "\<exists>e st2.
         cleanActiveTaskQueue (faultyEnv 1) ''w1'' (getActiveTaskQueueName exNaming ''w1'') ''pq''
           (tick exState) = Some (Some e, st2)
       \<and> cleanWorkers (faultyEnv 1) exNaming ''ws'' ''pq'' ''dq'' [''w1'', ''w2''] exState
           = Some (Some e, st2)
       \<and> ''w1'' \<in> set (sets (db st2) ''ws'')"
    by (simp del: cleanWorkers.simps)
  from exDrainFault4 obtain st2 st3 where
    b1: "cleanActiveTaskQueue (faultyEnv 4) ''w1'' (getActiveTaskQueueName exNaming ''w1'')
      ''pq'' (tick exState) = Some (None, st2)"
    and b2: "cleanWatchedTaskQueue (faultyEnv 4) ''w1'' (getWatchedTaskQueueName exNaming ''w1'')
      ''dq'' st2 = Some (Some (ErrCleaningUp ''w1'' ''w:w1'' (StoreFault ''down'')), st3)"
    unfolding n cleanActiveTaskQueue_def cleanWatchedTaskQueue_def by blast
  note bc = b[THEN conjunct2, THEN conjunct1, rule_format, OF conjI[OF b1 b2]]
  from bc m have "cleanWorkers (faultyEnv 4) exNaming ''ws'' ''pq'' ''dq'' [''w1'', ''w2'']
      exState = Some (Some (ErrCleaningUp ''w1'' ''w:w1'' (StoreFault ''down'')), st3)
       \<and> ''w1'' \<in> set (sets (db st3) ''ws'')"
    by (simp del: cleanWorkers.simps)
  with b1 b2 have 3: "\<exists>e st2 st3.
         cleanActiveTaskQueue (faultyEnv 4) ''w1'' (getActiveTaskQueueName exNaming ''w1'') ''pq''
           (tick exState) = Some (None, st2)
       \<and> cleanWatchedTaskQueue (faultyEnv 4) ''w1'' (getWatchedTaskQueueName exNaming ''w1'')
           ''dq'' st2 = Some (Some e, st3)
       \<and> cleanWorkers (faultyEnv 4) exNaming ''ws'' ''pq'' ''dq'' [''w1'', ''w2''] exState
           = Some (Some e, st3)
       \<and> ''w1'' \<in> set (sets (db st3) ''ws'')"
    by blast
  from f d 1 2 3 show ?thesis by blast
qed

end
